theory Spec2Isabelle
  imports Complex_Main "HOL-Library.Log_Nat"
begin

section \<open>PageRank: the transition model and the two estimators of pagerank.py\<close>

text \<open>
  The corpus is a Python dict from page names to sets of page names. A dict keeps its
  insertion order, and the estimators iterate over it, so it is an association list;
  the link set of a page is the list of its members in the order Python iterates them.
  Python floats are modelled as exact reals, Python ints as \<open>int\<close>, and every
  exception the code can raise is a value of \<open>error\<close>. The iterative estimator is
  modelled a second time over binary64 floats, for the one question that roundings
  decide: whether its loop breaks.
\<close>

type_synonym page = string
type_synonym corpus = "(page \<times> page list) list"
type_synonym 'v dict = "(page \<times> 'v) list"

datatype error = KeyError | ZeroDivisionError | IndexError | ValueError

subsection \<open>Dict and arithmetic primitives\<close>

definition dict_get :: "(page \<times> 'v) list \<Rightarrow> page \<Rightarrow> error + 'v" where
  \<comment> \<open>\<open>d[k]\<close> as an expression\<close>
  "dict_get d k = (case map_of d k of None \<Rightarrow> Inl KeyError | Some v \<Rightarrow> Inr v)"

fun dict_set :: "(page \<times> 'v) list \<Rightarrow> page \<Rightarrow> 'v \<Rightarrow> (page \<times> 'v) list" where
  \<comment> \<open>\<open>d[k] = v\<close>: an existing key keeps its position, a new key goes to the end\<close>
  "dict_set [] k v = [(k, v)]"
| "dict_set ((k', v') # d) k v =
     (if k' = k then (k, v) # d else (k', v') # dict_set d k v)"

definition py_div :: "real \<Rightarrow> real \<Rightarrow> error + real" where
  \<comment> \<open>true division \<open>a / b\<close>\<close>
  "py_div a b = (if b = 0 then Inl ZeroDivisionError else Inr (a / b))"

definition valid_corpus :: "corpus \<Rightarrow> bool" where
  \<comment> \<open>what a dict of sets is, and what \<open>crawl\<close> establishes: unique keys, link sets
      without repetition, no self-loop, no link leaving the corpus\<close>
  "valid_corpus corpus \<longleftrightarrow>
     distinct (map fst corpus) \<and>
     list_all (\<lambda>(p, links). distinct links \<and> p \<notin> set links \<and>
                              set links \<subseteq> set (map fst corpus)) corpus"

subsection \<open>\<open>transition_model\<close>\<close>

fun add_links :: "real dict \<Rightarrow> page list \<Rightarrow> real \<Rightarrow> error + real dict" where
  \<comment> \<open>\<open>for nowPage in links: distribution[nowPage] += LinkedPagePercent\<close>\<close>
  "add_links distribution [] LinkedPagePercent = Inr distribution"
| "add_links distribution (nowPage # links) LinkedPagePercent =
     (case dict_get distribution nowPage of
        Inl e \<Rightarrow> Inl e
      | Inr v \<Rightarrow> add_links (dict_set distribution nowPage (v + LinkedPagePercent))
                           links LinkedPagePercent)"

definition transition_model :: "corpus \<Rightarrow> page \<Rightarrow> real \<Rightarrow> error + real dict" where
  "transition_model corpus page damping_factor =
     (case dict_get corpus page of
        Inl e \<Rightarrow> Inl e
      | Inr links \<Rightarrow>
         (case py_div (1 - damping_factor) (real (length corpus)) of
            Inl e \<Rightarrow> Inl e
          | Inr randomPagePercent \<Rightarrow>
             (case py_div damping_factor (real (length links)) of
                Inl e \<Rightarrow> Inl e
              | Inr LinkedPagePercent \<Rightarrow>
                  add_links
                    (fold (\<lambda>page distribution. dict_set distribution page randomPagePercent)
                          (map fst corpus) [])
                    links LinkedPagePercent)))"

subsection \<open>\<open>sample_pagerank\<close>\<close>

text \<open>
  The random module is outside the repository. \<open>random.choice(seq)\<close> indexes \<open>seq\<close> at
  \<open>_randbelow(len(seq))\<close>: the generator's integer draw \<open>k\<close> is reduced below the length.
  \<open>random.choices(population, weights, k=1)\<close> accumulates the weights, rejects a total
  that is not positive, and bisects the cumulative weights at \<open>random() * total\<close>
  between 0 and \<open>len - 1\<close>; \<open>u\<close> is the draw of \<open>random()\<close>.
\<close>

definition choice :: "'a list \<Rightarrow> nat \<Rightarrow> error + 'a" where
  "choice seq k = (if seq = [] then Inl IndexError else Inr (seq ! (k mod length seq)))"

fun accumulate :: "real \<Rightarrow> real list \<Rightarrow> real list" where
  "accumulate acc [] = []"
| "accumulate acc (w # ws) = (acc + w) # accumulate (acc + w) ws"

function bisect :: "real list \<Rightarrow> real \<Rightarrow> nat \<Rightarrow> nat \<Rightarrow> nat" where
  "bisect a x lo hi =
     (if lo < hi
      then (if x < a ! ((lo + hi) div 2)
            then bisect a x lo ((lo + hi) div 2)
            else bisect a x ((lo + hi) div 2 + 1) hi)
      else lo)"
  by pat_completeness auto
termination
  by (relation "measure (\<lambda>(a, x, lo, hi). hi - lo)") auto

definition choices :: "'a list \<Rightarrow> real list \<Rightarrow> real \<Rightarrow> error + 'a" where
  "choices population weights u =
     (let cum_weights = accumulate 0 weights in
      if length cum_weights \<noteq> length population then Inl ValueError
      else if cum_weights = [] then Inl IndexError
      else if last cum_weights \<le> 0 then Inl ValueError
      else Inr (population !
                  bisect cum_weights (u * last cum_weights) 0 (length population - 1)))"

definition incr :: "int dict \<Rightarrow> page \<Rightarrow> error + int dict" where
  \<comment> \<open>\<open>countDict[chosen] += 1\<close>\<close>
  "incr countDict chosen =
     (case dict_get countDict chosen of
        Inl e \<Rightarrow> Inl e
      | Inr c \<Rightarrow> Inr (dict_set countDict chosen (c + 1)))"

function sample_loop ::
  "corpus \<Rightarrow> real \<Rightarrow> int \<Rightarrow> (nat \<Rightarrow> real) \<Rightarrow> int \<Rightarrow> page \<Rightarrow> int dict \<Rightarrow> error + int dict" where
  \<comment> \<open>\<open>while n > i\<close>; \<open>us j\<close> is the draw of \<open>random()\<close> in the round that sets \<open>i = j\<close>\<close>
  "sample_loop corpus damping_factor n us i chosen countDict =
     (if n > i
      then (case transition_model corpus chosen damping_factor of
              Inl e \<Rightarrow> Inl e
            | Inr model \<Rightarrow>
               (case choices (map fst model) (map snd model) (us (nat (i + 1))) of
                  Inl e \<Rightarrow> Inl e
                | Inr chosen' \<Rightarrow>
                   (case incr countDict chosen' of
                      Inl e \<Rightarrow> Inl e
                    | Inr countDict' \<Rightarrow>
                        sample_loop corpus damping_factor n us (i + 1) chosen' countDict')))
      else Inr countDict)"
  by pat_completeness auto
termination
  by (relation "measure (\<lambda>(corpus, d, n, us, i, chosen, countDict). nat (n - i))") auto

fun to_prob :: "int dict \<Rightarrow> int \<Rightarrow> error + real dict" where
  \<comment> \<open>\<open>for page, count in countDict.items(): probDict[page] = count / n\<close>\<close>
  "to_prob [] n = Inr []"
| "to_prob ((page, count) # items) n =
     (case py_div (real_of_int count) (real_of_int n) of
        Inl e \<Rightarrow> Inl e
      | Inr v \<Rightarrow>
         (case to_prob items n of
            Inl e \<Rightarrow> Inl e
          | Inr probDict \<Rightarrow> Inr ((page, v) # probDict)))"

definition sample_pagerank ::
  "corpus \<Rightarrow> real \<Rightarrow> int \<Rightarrow> nat \<Rightarrow> (nat \<Rightarrow> real) \<Rightarrow> error + real dict" where
  \<comment> \<open>\<open>k\<close> is the integer draw behind \<open>random.choice\<close>, \<open>us\<close> the draws of \<open>random()\<close>\<close>
  "sample_pagerank corpus damping_factor n k us =
     (let keys = map fst corpus;
          countDict = fold (\<lambda>key countDict. dict_set countDict key 0) keys []
      in case choice keys k of
           Inl e \<Rightarrow> Inl e
         | Inr chosen \<Rightarrow>
            (case incr countDict chosen of
               Inl e \<Rightarrow> Inl e
             | Inr countDict \<Rightarrow>
                (case sample_loop corpus damping_factor n us 1 chosen countDict of
                   Inl e \<Rightarrow> Inl e
                 | Inr countDict \<Rightarrow> to_prob countDict n)))"

subsection \<open>\<open>iterate_pagerank\<close>\<close>

definition minChange :: real where
  "minChange = 1 / 1000"

fun sum_links :: "corpus \<Rightarrow> real \<Rightarrow> real dict \<Rightarrow> page \<Rightarrow> real \<Rightarrow> error + real" where
  \<comment> \<open>\<open>for link, linked_pages in corpus.items(): if page in linked_pages: new_rank += ...\<close>\<close>
  "sum_links [] damping_factor probDict page new_rank = Inr new_rank"
| "sum_links ((link, linked_pages) # items) damping_factor probDict page new_rank =
     (if page \<in> set linked_pages
      then (case dict_get probDict link of
              Inl e \<Rightarrow> Inl e
            | Inr r \<Rightarrow>
               (case py_div (damping_factor * r) (real (length linked_pages)) of
                  Inl e \<Rightarrow> Inl e
                | Inr t \<Rightarrow> sum_links items damping_factor probDict page (new_rank + t)))
      else sum_links items damping_factor probDict page new_rank)"

fun iterate_pass ::
  "corpus \<Rightarrow> real \<Rightarrow> page list \<Rightarrow> real dict \<Rightarrow> bool \<Rightarrow> error + (real dict \<times> bool)" where
  \<comment> \<open>\<open>for page in corpus.keys()\<close>: the body writes \<open>probDict[page]\<close> before the next page
      is computed\<close>
  "iterate_pass corpus damping_factor [] probDict flag = Inr (probDict, flag)"
| "iterate_pass corpus damping_factor (page # pages) probDict flag =
     (case py_div (1 - damping_factor) (real (length corpus)) of
        Inl e \<Rightarrow> Inl e
      | Inr base \<Rightarrow>
         (case sum_links corpus damping_factor probDict page base of
            Inl e \<Rightarrow> Inl e
          | Inr new_rank \<Rightarrow>
             (case dict_get probDict page of
                Inl e \<Rightarrow> Inl e
              | Inr old_rank \<Rightarrow>
                  iterate_pass corpus damping_factor pages
                    (dict_set probDict page new_rank)
                    (if \<bar>new_rank - old_rank\<bar> > minChange then True else flag))))"

partial_function (option) iterate_loop ::
  "corpus \<Rightarrow> real \<Rightarrow> real dict \<Rightarrow> (error + real dict) option" where
  \<comment> \<open>\<open>while True\<close> over exact reals: \<open>None\<close> is the loop that never breaks. The same
      loop over binary64 floats is \<open>iterate_loop64\<close> below; the two differ where a
      rounding decides whether a pass still moves a rank\<close>
  "iterate_loop corpus damping_factor probDict =
     (case iterate_pass corpus damping_factor (map fst corpus) probDict False of
        Inl e \<Rightarrow> Some (Inl e)
      | Inr (probDict', flag) \<Rightarrow>
          if flag then iterate_loop corpus damping_factor probDict'
          else Some (Inr probDict'))"

declare iterate_loop.simps [code]

declare sample_loop.simps [simp del]

declare bisect.simps [simp del]

definition iterate_pagerank :: "corpus \<Rightarrow> real \<Rightarrow> (error + real dict) option" where
  "iterate_pagerank corpus damping_factor =
     (case py_div 1 (real (length corpus)) of
        Inl e \<Rightarrow> Some (Inl e)
      | Inr start_value \<Rightarrow>
          iterate_loop corpus damping_factor
            (fold (\<lambda>key probDict. dict_set probDict key start_value) (map fst corpus) []))"

subsection \<open>\<open>iterate_pagerank\<close> in binary64\<close>

text \<open>
  Whether the loop of the iterative estimator breaks is decided by single roundings, so
  for that question the estimator is modelled a second time, with every float operation
  of the source rounded as IEEE 754 binary64 does (round to nearest, ties to even). The
  floats are the rationals that \<open>round64\<close> returns. Overflow is not modelled: the ranks
  of a corpus stay far below \<open>2^1024\<close>. The literal \<open>0.001\<close> is the float nearest to
  \<open>1/1000\<close>, and \<open>1 / len(corpus)\<close> is the correctly rounded quotient of two ints.
\<close>

definition round_half_even :: "rat \<Rightarrow> int" where
  \<comment> \<open>the nearest integer, a tie going to the even one\<close>
  "round_half_even x =
     (if x - of_int \<lfloor>x\<rfloor> < 1 / 2 then \<lfloor>x\<rfloor>
      else if x - of_int \<lfloor>x\<rfloor> > 1 / 2 then \<lfloor>x\<rfloor> + 1
      else if even \<lfloor>x\<rfloor> then \<lfloor>x\<rfloor> else \<lfloor>x\<rfloor> + 1)"

definition binade :: "rat \<Rightarrow> int" where
  \<comment> \<open>for \<open>x \<noteq> 0\<close> the exponent \<open>e\<close> with \<open>2^e \<le> |x| < 2^(e+1)\<close>, found from the bit lengths
      of numerator and denominator\<close>
  "binade x =
     (let e = bitlen (fst (quotient_of \<bar>x\<bar>)) - bitlen (snd (quotient_of \<bar>x\<bar>))
      in if 2 powi e \<le> \<bar>x\<bar> then e else e - 1)"

definition round64 :: "rat \<Rightarrow> rat" where
  \<comment> \<open>round to nearest, ties to even, with 53 significant bits and gradual underflow
      below \<open>2^-1022\<close>\<close>
  "round64 x =
     (if x = 0 then 0
      else of_int (round_half_even (x / 2 powi (max (binade x) (- 1022) - 52)))
             * 2 powi (max (binade x) (- 1022) - 52))"

definition div64 :: "rat \<Rightarrow> rat \<Rightarrow> error + rat" where
  \<comment> \<open>\<open>a / b\<close> on floats\<close>
  "div64 a b = (if b = 0 then Inl ZeroDivisionError else Inr (round64 (a / b)))"

definition minChange64 :: rat where
  "minChange64 = round64 (1 / 1000)"

fun sum_links64 :: "corpus \<Rightarrow> rat \<Rightarrow> rat dict \<Rightarrow> page \<Rightarrow> rat \<Rightarrow> error + rat" where
  \<comment> \<open>\<open>new_rank += damping_factor * probDict[link] / len(linked_pages)\<close>: the product,
      the quotient and the sum are each rounded\<close>
  "sum_links64 [] damping_factor probDict page new_rank = Inr new_rank"
| "sum_links64 ((link, linked_pages) # items) damping_factor probDict page new_rank =
     (if page \<in> set linked_pages
      then (case dict_get probDict link of
              Inl e \<Rightarrow> Inl e
            | Inr r \<Rightarrow>
               (case div64 (round64 (damping_factor * r)) (of_nat (length linked_pages)) of
                  Inl e \<Rightarrow> Inl e
                | Inr t \<Rightarrow>
                    sum_links64 items damping_factor probDict page (round64 (new_rank + t))))
      else sum_links64 items damping_factor probDict page new_rank)"

fun iterate_pass64 ::
  "corpus \<Rightarrow> rat \<Rightarrow> page list \<Rightarrow> rat dict \<Rightarrow> bool \<Rightarrow> error + (rat dict \<times> bool)" where
  \<comment> \<open>the \<open>for\<close> loop of one pass; \<open>1 - damping_factor\<close>, the division by \<open>len(corpus)\<close>
      and the difference under \<open>abs\<close> are each rounded\<close>
  "iterate_pass64 corpus damping_factor [] probDict flag = Inr (probDict, flag)"
| "iterate_pass64 corpus damping_factor (page # pages) probDict flag =
     (case div64 (round64 (1 - damping_factor)) (of_nat (length corpus)) of
        Inl e \<Rightarrow> Inl e
      | Inr base \<Rightarrow>
         (case sum_links64 corpus damping_factor probDict page base of
            Inl e \<Rightarrow> Inl e
          | Inr new_rank \<Rightarrow>
             (case dict_get probDict page of
                Inl e \<Rightarrow> Inl e
              | Inr old_rank \<Rightarrow>
                  iterate_pass64 corpus damping_factor pages
                    (dict_set probDict page new_rank)
                    (if \<bar>round64 (new_rank - old_rank)\<bar> > minChange64 then True else flag))))"

partial_function (option) iterate_loop64 ::
  "corpus \<Rightarrow> rat \<Rightarrow> rat dict \<Rightarrow> (error + rat dict) option" where
  \<comment> \<open>\<open>while True\<close> as the program runs it: \<open>None\<close> is the loop that never breaks\<close>
  "iterate_loop64 corpus damping_factor probDict =
     (case iterate_pass64 corpus damping_factor (map fst corpus) probDict False of
        Inl e \<Rightarrow> Some (Inl e)
      | Inr (probDict', flag) \<Rightarrow>
          if flag then iterate_loop64 corpus damping_factor probDict'
          else Some (Inr probDict'))"

declare iterate_loop64.simps [code]

definition iterate_pagerank64 :: "corpus \<Rightarrow> rat \<Rightarrow> (error + rat dict) option" where
  "iterate_pagerank64 corpus damping_factor =
     (case div64 1 (of_nat (length corpus)) of
        Inl e \<Rightarrow> Some (Inl e)
      | Inr start_value \<Rightarrow>
          iterate_loop64 corpus damping_factor
            (fold (\<lambda>key probDict. dict_set probDict key start_value) (map fst corpus) []))"

text \<open>
  An input on which the binary64 loop is studied below: four pages, none a dead end, and
  the largest float below 1 as damping factor. \<open>cycle_start\<close> is the initial rank dict,
  \<open>cycle_odd\<close> and \<open>cycle_even\<close> are the two rank dicts between which the passes alternate.
\<close>

definition cycle_corpus :: corpus where
  "cycle_corpus = [(''A'', [''C'']), (''B'', [''A'']), (''C'', [''B'']), (''D'', [''A''])]"

definition cycle_damping :: rat where
  "cycle_damping = 1 - 1 / 2 ^ 53"

definition cycle_start :: "rat dict" where
  "cycle_start = [(''A'', 1 / 4), (''B'', 1 / 4), (''C'', 1 / 4), (''D'', 1 / 4)]"

definition cycle_odd :: "rat dict" where
  "cycle_odd = [(''A'', 1 / 2), (''B'', 1 / 4), (''C'', 1 / 2), (''D'', 1 / 2 ^ 55)]"

definition cycle_even :: "rat dict" where
  "cycle_even = [(''A'', 1 / 4), (''B'', 1 / 2), (''C'', 1 / 4), (''D'', 1 / 2 ^ 55)]"

subsection \<open>Dicts with a known key list\<close>

text \<open>
  Every dict the estimators build has the keys of the corpus, in its order;
  \<open>mk_dict ks r\<close> is the dict with keys \<open>ks\<close> and the value \<open>r k\<close> at \<open>k\<close>.
\<close>

definition mk_dict :: "page list \<Rightarrow> (page \<Rightarrow> 'v) \<Rightarrow> (page \<times> 'v) list" where
  "mk_dict ks r = map (\<lambda>k. (k, r k)) ks"

subsection \<open>Vocabulary of the statements\<close>

text \<open>
  The definitions from here on are not part of the program. They name what the
  statements below talk about, and each is tied to the model by a lemma: \<open>new_rank\<close>,
  \<open>in_place_pass\<close> and \<open>pass_flag\<close> read one pass of \<open>iterate_pass\<close> as a function on rank
  assignments (lemmas \<open>sum_links_new_rank\<close> and \<open>iterate_pass_mk_dict\<close>);
  \<open>synchronous_pass\<close> and \<open>converged_within\<close> follow the words of the spec and are what the
  code is compared with.
\<close>

definition no_dead_end :: "corpus \<Rightarrow> bool" where
  \<comment> \<open>every page has at least one outbound link\<close>
  "no_dead_end corpus \<longleftrightarrow> list_all (\<lambda>(page, links). links \<noteq> []) corpus"

definition link_weight :: "page \<Rightarrow> page \<times> page list \<Rightarrow> real" where
  \<comment> \<open>the share of the rank of \<open>link\<close> that \<open>page\<close> receives: \<open>1 / len(linked_pages)\<close> when
      \<open>page in linked_pages\<close>, nothing otherwise\<close>
  "link_weight page item =
     (if page \<in> set (snd item) then 1 / real (length (snd item)) else 0)"

definition new_rank :: "corpus \<Rightarrow> real \<Rightarrow> (page \<Rightarrow> real) \<Rightarrow> page \<Rightarrow> real" where
  \<comment> \<open>the value the loop body computes for \<open>page\<close> when the dict holds the ranks \<open>r\<close>\<close>
  "new_rank corpus d r page =
     (1 - d) / real (length corpus) +
     d * (\<Sum>item\<leftarrow>corpus. link_weight page item * r (fst item))"

fun in_place_pass :: "corpus \<Rightarrow> real \<Rightarrow> page list \<Rightarrow> (page \<Rightarrow> real) \<Rightarrow> (page \<Rightarrow> real)" where
  \<comment> \<open>the ranks after the \<open>for\<close> loop has visited \<open>pages\<close>, each new rank written at once\<close>
  "in_place_pass corpus d [] r = r"
| "in_place_pass corpus d (page # pages) r =
     in_place_pass corpus d pages (r(page := new_rank corpus d r page))"

fun pass_flag :: "corpus \<Rightarrow> real \<Rightarrow> page list \<Rightarrow> (page \<Rightarrow> real) \<Rightarrow> bool" where
  \<comment> \<open>whether that loop sets \<open>flag\<close>\<close>
  "pass_flag corpus d [] r = False"
| "pass_flag corpus d (page # pages) r =
     (\<bar>new_rank corpus d r page - r page\<bar> > minChange \<or>
      pass_flag corpus d pages (r(page := new_rank corpus d r page)))"

definition rank_of :: "real dict \<Rightarrow> page \<Rightarrow> real" where
  \<comment> \<open>the rank a dict holds for a page (0 for a page that is not a key)\<close>
  "rank_of probDict page = (case dict_get probDict page of Inl e \<Rightarrow> 0 | Inr v \<Rightarrow> v)"

definition synchronous_pass :: "corpus \<Rightarrow> real \<Rightarrow> real dict \<Rightarrow> real dict" where
  \<comment> \<open>the pass as the spec words it: every new rank is computed from the ranks of the
      previous pass, and all ranks are replaced together\<close>
  "synchronous_pass corpus d probDict =
     map (\<lambda>page. (page, new_rank corpus d (rank_of probDict) page)) (map fst corpus)"

definition converged_within :: "real \<Rightarrow> page list \<Rightarrow> real dict \<Rightarrow> real dict \<Rightarrow> bool" where
  \<comment> \<open>the stopping test as the spec words it, for a threshold \<open>eps\<close> chosen by the caller:
      no page's rank changed by more than \<open>eps\<close> in the pass\<close>
  "converged_within eps pages probDict probDict' \<longleftrightarrow>
     list_all (\<lambda>page. \<bar>rank_of probDict' page - rank_of probDict page\<bar> \<le> eps) pages"

text \<open>
  For the termination argument in exact arithmetic: when the pass computes the new rank of a page it reads
  the rank of every page that links to it, either the one the pass has already rewritten
  or the previous one. \<open>later_weight\<close> and \<open>earlier_weight\<close> add up the weights of the two
  kinds of reads of one page's rank, and \<open>change\<close> measures the distance between two rank
  assignments with the weights under which one pass shrinks it by the factor \<open>d\<close>.
\<close>

fun later_weight :: "page list \<Rightarrow> page \<times> page list \<Rightarrow> real" where
  \<comment> \<open>in a pass over \<open>pages\<close>: the total weight with which the rank of the item's page is
      read after the pass has rewritten it\<close>
  "later_weight [] item = 0"
| "later_weight (p # pages) item =
     (if fst item = p then (\<Sum>p'\<leftarrow>pages. link_weight p' item) else later_weight pages item)"

fun earlier_weight :: "page list \<Rightarrow> page \<times> page list \<Rightarrow> real" where
  \<comment> \<open>the total weight with which it is read before the pass has rewritten it\<close>
  "earlier_weight [] item = 0"
| "earlier_weight (p # pages) item =
     link_weight p item + (if fst item = p then 0 else earlier_weight pages item)"

definition change :: "corpus \<Rightarrow> real \<Rightarrow> (page \<Rightarrow> real) \<Rightarrow> (page \<Rightarrow> real) \<Rightarrow> real" where
  \<comment> \<open>a weighted sum of the distances between two rank assignments\<close>
  "change corpus d x y =
     (\<Sum>item\<leftarrow>corpus. (1 - d * later_weight (map fst corpus) item) * \<bar>y (fst item) - x (fst item)\<bar>)"

section \<open>Properties\<close>

subsection \<open>Dict lemmas\<close>

lemma mk_dict_Nil [simp]: "mk_dict [] r = []"
  by (simp add: mk_dict_def)

lemma mk_dict_Cons [simp]: "mk_dict (k # ks) r = (k, r k) # mk_dict ks r"
  by (simp add: mk_dict_def)

lemma map_fst_mk_dict [simp]: "map fst (mk_dict ks r) = ks"
  by (simp add: mk_dict_def comp_def)

lemma map_snd_mk_dict [simp]: "map snd (mk_dict ks r) = map r ks"
  by (simp add: mk_dict_def comp_def)

lemma map_of_mk_dict: "map_of (mk_dict ks r) k = (if k \<in> set ks then Some (r k) else None)"
  by (induction ks) (auto simp: mk_dict_def)

lemma dict_get_mk_dict:
  "dict_get (mk_dict ks r) k = (if k \<in> set ks then Inr (r k) else Inl KeyError)"
  by (simp add: dict_get_def map_of_mk_dict)

lemma dict_set_mk_dict:
  "distinct ks \<Longrightarrow> k \<in> set ks \<Longrightarrow> dict_set (mk_dict ks r) k v = mk_dict ks (r(k := v))"
  by (induction ks) (auto simp: mk_dict_def)

lemma dict_set_new:
  "k \<notin> set ks \<Longrightarrow> dict_set (mk_dict ks r) k v = mk_dict (ks @ [k]) (r(k := v))"
  by (induction ks) (auto simp: mk_dict_def)

lemma mk_dict_cong: "(\<And>k. k \<in> set ks \<Longrightarrow> r k = r' k) \<Longrightarrow> mk_dict ks r = mk_dict ks r'"
  by (simp add: mk_dict_def)

lemma fold_dict_set_const_aux:
  "distinct (ks0 @ ks) \<Longrightarrow>
   fold (\<lambda>k d. dict_set d k v) ks (mk_dict ks0 (\<lambda>_. v)) = mk_dict (ks0 @ ks) (\<lambda>_. v)"
proof (induction ks arbitrary: ks0)
  case Nil
  then show ?case by simp
next
  case (Cons k ks)
  have "dict_set (mk_dict ks0 (\<lambda>_. v)) k v = mk_dict (ks0 @ [k]) (\<lambda>_. v)"
    using Cons.prems by (simp add: dict_set_new fun_upd_idem cong: mk_dict_cong)
  moreover have "distinct ((ks0 @ [k]) @ ks)"
    using Cons.prems by simp
  ultimately show ?case
    using Cons.IH [of "ks0 @ [k]"] by simp
qed

lemma fold_dict_set_const:
  "distinct ks \<Longrightarrow> fold (\<lambda>k d. dict_set d k v) ks [] = mk_dict ks (\<lambda>_. v)"
  using fold_dict_set_const_aux [of "[]" ks v] by (simp add: mk_dict_def)


lemma is_mk_dict: "distinct (map fst d) \<Longrightarrow> d = mk_dict (map fst d) (\<lambda>k. the (map_of d k))"
proof (induction d)
  case Nil
  then show ?case by (simp add: mk_dict_def)
next
  case (Cons kv d)
  obtain k v where kv: "kv = (k, v)" by (cases kv)
  have "mk_dict (map fst d) (\<lambda>k'. the (map_of (kv # d) k')) = mk_dict (map fst d) (\<lambda>k'. the (map_of d k'))"
    using Cons.prems kv by (intro mk_dict_cong) auto
  moreover have "d = mk_dict (map fst d) (\<lambda>k'. the (map_of d k'))"
    using Cons by simp
  ultimately have "mk_dict (map fst d) (\<lambda>k'. the (map_of (kv # d) k')) = d"
    by simp
  then show ?case using kv by simp
qed

subsection \<open>The transition model\<close>

lemma add_links_mk_dict:
  "distinct ks \<Longrightarrow> distinct links \<Longrightarrow> set links \<subseteq> set ks \<Longrightarrow>
   add_links (mk_dict ks r) links w =
     Inr (mk_dict ks (\<lambda>k. r k + (if k \<in> set links then w else 0)))"
proof (induction links arbitrary: r)
  case Nil
  then show ?case by simp
next
  case (Cons l links)
  have l: "l \<in> set ks" "l \<notin> set links" using Cons.prems by auto
  have "add_links (mk_dict ks r) (l # links) w = add_links (mk_dict ks (r(l := r l + w))) links w"
    using Cons.prems l by (simp add: dict_get_mk_dict dict_set_mk_dict)
  also have "\<dots> = Inr (mk_dict ks (\<lambda>k. (r(l := r l + w)) k + (if k \<in> set links then w else 0)))"
    using Cons.prems by (intro Cons.IH) auto
  also have "mk_dict ks (\<lambda>k. (r(l := r l + w)) k + (if k \<in> set links then w else 0))
           = mk_dict ks (\<lambda>k. r k + (if k \<in> set (l # links) then w else 0))"
    using l by (intro mk_dict_cong) auto
  finally show ?case .
qed

lemma valid_corpus_links:
  assumes "valid_corpus corpus" "map_of corpus page = Some links"
  shows "distinct links" "page \<notin> set links" "set links \<subseteq> set (map fst corpus)"
proof -
  have "(page, links) \<in> set corpus" using assms(2) by (rule map_of_SomeD)
  then have "distinct links \<and> page \<notin> set links \<and> set links \<subseteq> set (map fst corpus)"
    using assms(1) by (auto simp: valid_corpus_def list_all_iff)
  then show "distinct links" "page \<notin> set links" "set links \<subseteq> set (map fst corpus)" by auto
qed

lemma transition_model_linked:
  assumes "valid_corpus corpus" "map_of corpus page = Some links" "links \<noteq> []"
  shows "transition_model corpus page d =
           Inr (mk_dict (map fst corpus)
                  (\<lambda>k. (1 - d) / real (length corpus) +
                        (if k \<in> set links then d / real (length links) else 0)))"
proof -
  have ne: "corpus \<noteq> []" using assms(2) by auto
  have dk: "distinct (map fst corpus)" using assms(1) by (simp add: valid_corpus_def)
  show ?thesis
    using ne assms(3) valid_corpus_links [OF assms(1,2)] dk
    by (simp add: transition_model_def dict_get_def assms(2) py_div_def
                  fold_dict_set_const add_links_mk_dict)
qed

lemma transition_model_dead_end:
  assumes "map_of corpus page = Some []"
  shows "transition_model corpus page d = Inl ZeroDivisionError"
proof -
  have "corpus \<noteq> []" using assms by auto
  then show ?thesis
    by (simp add: transition_model_def dict_get_def assms py_div_def)
qed

lemma sum_list_indicator:
  assumes "distinct ks" "distinct links" "set links \<subseteq> set ks"
  shows "(\<Sum>k\<leftarrow>ks. if k \<in> set links then w else (0::real)) = real (length links) * w"
proof -
  have "(\<Sum>k\<leftarrow>ks. if k \<in> set links then w else 0) = (\<Sum>k\<in>set ks. if k \<in> set links then w else 0)"
    using assms(1) by (simp add: sum_list_distinct_conv_sum_set)
  also have "\<dots> = (\<Sum>k\<in>set links. w)"
    using assms(3) by (simp add: sum.inter_restrict [symmetric] Int_absorb1)
  also have "\<dots> = real (length links) * w"
    using assms(2) by (simp add: distinct_card)
  finally show ?thesis .
qed

lemma transition_model_linked_sum:
  assumes "valid_corpus corpus" "map_of corpus page = Some links" "links \<noteq> []"
    and "transition_model corpus page d = Inr distr"
  shows "sum_list (map snd distr) = 1"
proof -
  have ne: "corpus \<noteq> []" using assms(2) by auto
  have dk: "distinct (map fst corpus)" using assms(1) by (simp add: valid_corpus_def)
  note vl = valid_corpus_links [OF assms(1,2)]
  define ks where "ks = map fst corpus"
  have len: "length ks = length corpus" by (simp add: ks_def)
  have "distr = mk_dict ks
                  (\<lambda>k. (1 - d) / real (length corpus) +
                        (if k \<in> set links then d / real (length links) else 0))"
    using transition_model_linked [OF assms(1,2,3), of d] assms(4) by (simp add: ks_def)
  then have "sum_list (map snd distr) =
      (\<Sum>k\<leftarrow>ks. (1 - d) / real (length corpus) +
                        (if k \<in> set links then d / real (length links) else 0))"
    by simp
  also have "\<dots> = (\<Sum>k\<leftarrow>ks. (1 - d) / real (length corpus)) +
                   (\<Sum>k\<leftarrow>ks. if k \<in> set links then d / real (length links) else 0)"
    by (simp add: sum_list_addf)
  also have "\<dots> = (1 - d) + d"
    using ne assms(3) dk vl(1) vl(3)
    by (simp add: sum_list_indicator [of ks links] sum_list_triv len ks_def [symmetric])
  finally show ?thesis by simp
qed

text \<open>
  C1. On a dead end (a page whose link set is empty) the spec asks for the uniform
  distribution \<open>1/N\<close>. The code divides the damping factor by the number of links
  before it builds anything, so on every dead end it raises \<open>ZeroDivisionError\<close> and
  returns no distribution.
\<close>
theorem transition_model_dead_end_raises:
  "map_of corpus page = Some [] \<Longrightarrow>
   transition_model corpus page damping_factor = Inl ZeroDivisionError
   \<and> transition_model corpus page damping_factor
       \<noteq> Inr (map (\<lambda>p. (p, 1 / real (length corpus))) (map fst corpus))"
  by (simp add: transition_model_dead_end)

theorem transition_model_dead_end_raises_witness:
  "map_of [(''A'', [''B'']), (''B'', [])] ''B'' = Some []
   \<and> transition_model [(''A'', [''B'']), (''B'', [])] ''B'' (85 / 100) = Inl ZeroDivisionError"
  using transition_model_dead_end_raises [of "[(''A'', [''B'']), (''B'', [])]" "''B''" "85 / 100"]
  by simp

text \<open>
  C5. From a page with at least one link the returned distribution sums to 1 (in exact
  arithmetic): \<open>N\<close> shares \<open>(1 - d)/N\<close> and \<open>|L|\<close> shares \<open>d/|L|\<close>. From a dead
  end nothing is returned, the division by \<open>|L| = 0\<close> raises.
\<close>
theorem transition_model_sum:
  assumes "valid_corpus corpus" and "map_of corpus page = Some links"
  shows "(links \<noteq> [] \<longrightarrow>
            (\<exists>distribution. transition_model corpus page damping_factor = Inr distribution
                \<and> sum_list (map snd distribution) = 1))
       \<and> (links = [] \<longrightarrow> transition_model corpus page damping_factor = Inl ZeroDivisionError)"
proof (intro conjI impI)
  assume ne: "links \<noteq> []"
  obtain distribution where d: "transition_model corpus page damping_factor = Inr distribution"
    using transition_model_linked [OF assms ne] by blast
  then have "sum_list (map snd distribution) = 1"
    using transition_model_linked_sum [OF assms ne] by blast
  with d show "\<exists>distribution. transition_model corpus page damping_factor = Inr distribution
                \<and> sum_list (map snd distribution) = 1"
    by blast
next
  assume "links = []"
  then show "transition_model corpus page damping_factor = Inl ZeroDivisionError"
    using assms(2) by (simp add: transition_model_dead_end)
qed

theorem transition_model_sum_witness:
  "valid_corpus [(''A'', [''B'']), (''B'', [])]
   \<and> map_of [(''A'', [''B'']), (''B'', [])] ''A'' = Some [''B'']
   \<and> map_of [(''A'', [''B'']), (''B'', [])] ''B'' = Some []
   \<and> (\<exists>distribution. transition_model [(''A'', [''B'']), (''B'', [])] ''A'' (85 / 100) = Inr distribution
          \<and> sum_list (map snd distribution) = 1)
   \<and> transition_model [(''A'', [''B'']), (''B'', [])] ''B'' (85 / 100) = Inl ZeroDivisionError"
proof -
  have v: "valid_corpus [(''A'', [''B'']), (''B'', [])]"
    by (simp add: valid_corpus_def)
  have a: "map_of [(''A'', [''B'']), (''B'', [])] ''A'' = Some [''B'']" by simp
  have b: "map_of [(''A'', [''B'']), (''B'', [])] ''B'' = Some []" by simp
  show ?thesis
    using transition_model_sum [OF v a, of "85 / 100"] transition_model_sum [OF v b, of "85 / 100"] v
    by simp
qed

subsection \<open>The sampling estimator\<close>


lemma distinct_count_list:
  "distinct xs \<Longrightarrow> x \<in> set xs \<Longrightarrow> count_list xs x = 1"
  by (induction xs) auto

lemma choice_in_set: "seq \<noteq> [] \<Longrightarrow> \<exists>x\<in>set seq. choice seq k = Inr x"
  by (simp add: choice_def)

lemma incr_mk_dict:
  "distinct ks \<Longrightarrow> chosen \<in> set ks \<Longrightarrow>
   incr (mk_dict ks f) chosen = Inr (mk_dict ks (f(chosen := f chosen + 1)))"
  by (simp add: incr_def dict_get_mk_dict dict_set_mk_dict)

lemma incr_KeyError: "chosen \<notin> set ks \<Longrightarrow> incr (mk_dict ks f) chosen = Inl KeyError"
  by (simp add: incr_def dict_get_mk_dict)

lemma to_prob_mk_dict:
  "n \<noteq> 0 \<Longrightarrow> to_prob (mk_dict ks f) n = Inr (mk_dict ks (\<lambda>k. real_of_int (f k) / real_of_int n))"
  by (induction ks) (simp_all add: py_div_def)

lemma sample_loop_done: "n \<le> i \<Longrightarrow> sample_loop corpus d n us i chosen countDict = Inr countDict"
  by (subst sample_loop.simps) simp

lemma length_accumulate [simp]: "length (accumulate acc ws) = length ws"
  by (induction ws arbitrary: acc) auto

lemma accumulate_eq_Nil [simp]: "accumulate acc ws = [] \<longleftrightarrow> ws = []"
  by (cases ws) auto

lemma last_accumulate: "ws \<noteq> [] \<Longrightarrow> last (accumulate acc ws) = acc + sum_list ws"
  by (induction ws arbitrary: acc) (auto simp: add.assoc)

lemma bisect_bounds: "lo \<le> hi \<Longrightarrow> lo \<le> bisect a x lo hi \<and> bisect a x lo hi \<le> hi"
proof (induction a x lo hi rule: bisect.induct)
  case (1 a x lo hi)
  show ?case
  proof (cases "lo < hi")
    case False
    then show ?thesis using "1.prems" by (subst bisect.simps, subst (2) bisect.simps) simp
  next
    case True
    show ?thesis
    proof (cases "x < a ! ((lo + hi) div 2)")
      case t: True
      have "lo \<le> (lo + hi) div 2" using True by simp
      from "1.IH"(1) [OF True t this] True t show ?thesis
        by (subst bisect.simps, subst (2) bisect.simps) auto
    next
      case f: False
      have "(lo + hi) div 2 + 1 \<le> hi" using True by simp
      from "1.IH"(2) [OF True f this] True f show ?thesis
        by (subst bisect.simps, subst (2) bisect.simps) auto
    qed
  qed
qed

lemma choices_in_set: "choices population weights u = Inr x \<Longrightarrow> x \<in> set population"
proof -
  assume a: "choices population weights u = Inr x"
  then have ne: "population \<noteq> []" and len: "length weights = length population"
    by (auto simp: choices_def Let_def split: if_splits)
  have "bisect (accumulate 0 weights) (u * last (accumulate 0 weights)) 0 (length population - 1)
          \<le> length population - 1"
    using bisect_bounds [of 0 "length population - 1"] by simp
  then have "bisect (accumulate 0 weights) (u * last (accumulate 0 weights)) 0 (length population - 1)
          < length population"
    using ne by (cases population) auto
  moreover have "x = population ! bisect (accumulate 0 weights) (u * last (accumulate 0 weights)) 0 (length population - 1)"
    using a by (auto simp: choices_def Let_def split: if_splits)
  ultimately show ?thesis by simp
qed

lemma choices_succeeds:
  assumes "length weights = length population" "population \<noteq> []" "0 < sum_list weights"
  shows "\<exists>x. choices population weights u = Inr x"
proof -
  have "weights \<noteq> []" using assms(1,2) by auto
  then show ?thesis
    using assms by (simp add: choices_def Let_def last_accumulate)
qed

lemma transition_model_keys:
  assumes "valid_corpus corpus" "transition_model corpus page d = Inr model"
  shows "map fst model = map fst corpus"
proof (cases "map_of corpus page")
  case None
  then show ?thesis using assms(2) by (simp add: transition_model_def dict_get_def)
next
  case (Some links)
  show ?thesis
  proof (cases "links = []")
    case True
    then show ?thesis using assms(2) Some by (simp add: transition_model_dead_end)
  next
    case False
    show ?thesis
      using transition_model_linked [OF assms(1) Some False, of d] assms(2) by auto
  qed
qed

lemma sum_list_fun_upd:
  "distinct ks \<Longrightarrow> c \<in> set ks \<Longrightarrow>
   sum_list (map (f(c := f c + (1::int))) ks) = sum_list (map f ks) + 1"
proof (induction ks)
  case Nil
  then show ?case by simp
next
  case (Cons k ks)
  show ?case
  proof (cases "k = c")
    case True
    then have "c \<notin> set ks" using Cons.prems by simp
    then have "map (f(c := f c + 1)) ks = map f ks" by (rule map_fun_upd)
    then have "sum_list (map (f(c := f c + 1)) ks) = sum_list (map f ks)" by (rule arg_cong)
    then show ?thesis using True by (simp del: fun_upd_apply add: fun_upd_same)
  next
    case False
    then show ?thesis using Cons by simp
  qed
qed

lemma sample_loop_counts:
  assumes "valid_corpus corpus" "ks = map fst corpus"
  shows "sample_loop corpus d n us i chosen (mk_dict ks f) = Inr countDict \<Longrightarrow>
     \<exists>f'. countDict = mk_dict ks f' \<and> (\<forall>k. f k \<le> f' k)
          \<and> sum_list (map f' ks) = sum_list (map f ks) + (if i \<le> n then n - i else 0)"
proof (induction "nat (n - i)" arbitrary: i chosen f)
  case 0
  then have "n \<le> i" by simp
  then have "countDict = mk_dict ks f" using "0.prems" by (simp add: sample_loop_done)
  then show ?case using \<open>n \<le> i\<close> by (intro exI [of _ f]) auto
next
  case (Suc m)
  have dk: "distinct ks" using assms by (simp add: valid_corpus_def)
  have lt: "i < n" using Suc.hyps(2) by simp
  from Suc.prems lt obtain model where m: "transition_model corpus chosen d = Inr model"
    by (subst (asm) sample_loop.simps) (auto split: sum.splits)
  from Suc.prems lt m obtain chosen' where
    c: "choices (map fst model) (map snd model) (us (nat (i + 1))) = Inr chosen'"
    by (subst (asm) sample_loop.simps) (auto split: sum.splits)
  have "map fst model = ks" using transition_model_keys [OF assms(1) m] assms(2) by simp
  then have in_ks: "chosen' \<in> set ks" using choices_in_set [OF c] by simp
  let ?f = "f(chosen' := f chosen' + 1)"
  have rec: "sample_loop corpus d n us (i + 1) chosen' (mk_dict ks ?f) = Inr countDict"
    using Suc.prems lt m c by (subst (asm) sample_loop.simps) (simp add: incr_mk_dict [OF dk in_ks])
  have "m = nat (n - (i + 1))" using Suc.hyps(2) by simp
  from Suc.hyps(1) [OF this rec] obtain f' where
    f': "countDict = mk_dict ks f'" "\<forall>k. ?f k \<le> f' k"
        "sum_list (map f' ks) = sum_list (map ?f ks) + (if i + 1 \<le> n then n - (i + 1) else 0)"
    by blast
  have "\<forall>k. f k \<le> f' k"
  proof
    fix k
    have "f k \<le> ?f k" by simp
    also have "\<dots> \<le> f' k" using f'(2) by blast
    finally show "f k \<le> f' k" .
  qed
  moreover have "sum_list (map f' ks) = sum_list (map f ks) + (if i \<le> n then n - i else 0)"
    using f'(3) lt by (simp add: sum_list_fun_upd [OF dk in_ks])
  ultimately show ?case using f'(1) by blast
qed

lemma sample_pagerank_result:
  assumes "valid_corpus corpus" "1 \<le> n"
    and "sample_pagerank corpus d n k us = Inr probDict"
  shows "\<exists>f. probDict = mk_dict (map fst corpus) (\<lambda>p. real_of_int (f p) / real_of_int n)
            \<and> (\<forall>p. 0 \<le> f p) \<and> sum_list (map f (map fst corpus)) = n"
proof -
  define ks where "ks = map fst corpus"
  have dk: "distinct ks" using assms(1) by (simp add: valid_corpus_def ks_def)
  have init: "fold (\<lambda>key countDict. dict_set countDict key 0) ks [] = mk_dict ks (\<lambda>_. 0::int)"
    using dk by (rule fold_dict_set_const)
  from assms(3) obtain chosen where ch: "choice ks k = Inr chosen"
    by (auto simp: sample_pagerank_def Let_def ks_def split: sum.splits)
  then have in_ks: "chosen \<in> set ks"
    by (auto simp: choice_def split: if_splits)
  let ?f = "(\<lambda>_. 0::int)(chosen := 1)"
  have i1: "incr (mk_dict ks (\<lambda>_. 0::int)) chosen = Inr (mk_dict ks ?f)"
    using incr_mk_dict [OF dk in_ks, of "\<lambda>_. 0"] by simp
  from assms(3) obtain countDict where
    loop: "sample_loop corpus d n us 1 chosen (mk_dict ks ?f) = Inr countDict"
    and res: "to_prob countDict n = Inr probDict"
    by (auto simp: sample_pagerank_def Let_def ks_def [symmetric] init ch i1 split: sum.splits)
  from sample_loop_counts [OF assms(1) ks_def loop] obtain f' where
    f': "countDict = mk_dict ks f'" "\<forall>k. ?f k \<le> f' k"
        "sum_list (map f' ks) = sum_list (map ?f ks) + (if 1 \<le> n then n - 1 else 0)"
    by blast
  have "sum_list (map ?f ks) = sum_list (map (\<lambda>_. 0::int) ks) + 1"
    using sum_list_fun_upd [OF dk in_ks, of "\<lambda>_. 0"] by simp
  then have s: "sum_list (map f' ks) = n" using f'(3) assms(2) by simp
  have nn: "\<forall>p. 0 \<le> f' p"
  proof
    fix p
    have "0 \<le> ?f p" by simp
    also have "\<dots> \<le> f' p" using f'(2) by blast
    finally show "0 \<le> f' p" .
  qed
  have "probDict = mk_dict ks (\<lambda>p. real_of_int (f' p) / real_of_int n)"
    using res assms(2) by (simp add: f'(1) to_prob_mk_dict)
  then show ?thesis using nn s unfolding ks_def by blast
qed

lemma sum_list_of_int_divide:
  "(\<Sum>p\<leftarrow>ks. real_of_int (f p) / c) = real_of_int (sum_list (map f ks)) / c"
  by (induction ks) (simp_all add: add_divide_distrib)

lemma sample_pagerank_sum:
  assumes "valid_corpus corpus" "1 \<le> n"
    and "sample_pagerank corpus d n k us = Inr probDict"
  shows "sum_list (map snd probDict) = 1"
proof -
  from sample_pagerank_result [OF assms] obtain f where
    f: "probDict = mk_dict (map fst corpus) (\<lambda>p. real_of_int (f p) / real_of_int n)"
       "sum_list (map f (map fst corpus)) = n"
    by blast
  have "sum_list (map snd probDict) = real_of_int (sum_list (map f (map fst corpus))) / real_of_int n"
    unfolding f(1) map_snd_mk_dict by (rule sum_list_of_int_divide)
  then show ?thesis using f(2) assms(2) by simp
qed

lemma no_dead_end_links:
  assumes "no_dead_end corpus" "page \<in> set (map fst corpus)"
  shows "\<exists>links. map_of corpus page = Some links \<and> links \<noteq> []"
proof -
  from assms(2) obtain links where l: "map_of corpus page = Some links"
    by (metis map_of_eq_None_iff not_Some_eq set_map)
  then have "(page, links) \<in> set corpus" by (rule map_of_SomeD)
  then have "links \<noteq> []" using assms(1) by (auto simp: no_dead_end_def list_all_iff)
  with l show ?thesis by blast
qed

lemma sample_loop_returns:
  assumes "valid_corpus corpus" "no_dead_end corpus" "ks = map fst corpus"
  shows "chosen \<in> set ks \<Longrightarrow> \<exists>countDict. sample_loop corpus d n us i chosen (mk_dict ks f) = Inr countDict"
proof (induction "nat (n - i)" arbitrary: i chosen f)
  case 0
  then have "n \<le> i" by simp
  then show ?case by (simp add: sample_loop_done)
next
  case (Suc m)
  have dk: "distinct ks" using assms by (simp add: valid_corpus_def)
  have lt: "i < n" using Suc.hyps(2) by simp
  from no_dead_end_links [OF assms(2)] Suc.prems assms(3) obtain links where
    l: "map_of corpus chosen = Some links" "links \<noteq> []"
    by blast
  from transition_model_linked [OF assms(1) l, of d] obtain model where
    m: "transition_model corpus chosen d = Inr model" by blast
  have mk: "map fst model = ks" using transition_model_keys [OF assms(1) m] assms(3) by simp
  have "sum_list (map snd model) = 1" by (rule transition_model_linked_sum [OF assms(1) l m])
  moreover have "map fst model \<noteq> []" using mk Suc.prems by auto
  ultimately obtain chosen' where
    c: "choices (map fst model) (map snd model) (us (nat (i + 1))) = Inr chosen'"
    using choices_succeeds [of "map snd model" "map fst model" "us (nat (i + 1))"] by auto
  have in_ks: "chosen' \<in> set ks" using choices_in_set [OF c] mk by simp
  have "m = nat (n - (i + 1))" using Suc.hyps(2) by simp
  from Suc.hyps(1) [OF this in_ks, of "f(chosen' := f chosen' + 1)"] obtain countDict where
    "sample_loop corpus d n us (i + 1) chosen' (mk_dict ks (f(chosen' := f chosen' + 1))) = Inr countDict"
    by blast
  then have "sample_loop corpus d n us i chosen (mk_dict ks f) = Inr countDict"
    using lt m c by (subst sample_loop.simps) (simp add: incr_mk_dict [OF dk in_ks])
  then show ?case by blast
qed

lemma sample_pagerank_returns:
  assumes "valid_corpus corpus" "no_dead_end corpus" "corpus \<noteq> []" "1 \<le> n"
  shows "\<exists>probDict. sample_pagerank corpus d n k us = Inr probDict"
proof -
  define ks where "ks = map fst corpus"
  have dk: "distinct ks" using assms(1) by (simp add: valid_corpus_def ks_def)
  have init: "fold (\<lambda>key countDict. dict_set countDict key 0) ks [] = mk_dict ks (\<lambda>_. 0::int)"
    using dk by (rule fold_dict_set_const)
  have "ks \<noteq> []" using assms(3) by (simp add: ks_def)
  then obtain chosen where ch: "chosen \<in> set ks" "choice ks k = Inr chosen"
    using choice_in_set by blast
  let ?f = "(\<lambda>_. 0::int)(chosen := 1)"
  have i1: "incr (mk_dict ks (\<lambda>_. 0::int)) chosen = Inr (mk_dict ks ?f)"
    using incr_mk_dict [OF dk ch(1), of "\<lambda>_. 0"] by simp
  from sample_loop_returns [OF assms(1,2) ks_def ch(1)] obtain countDict where
    loop: "sample_loop corpus d n us 1 chosen (mk_dict ks ?f) = Inr countDict"
    by blast
  from sample_loop_counts [OF assms(1) ks_def loop] obtain f' where "countDict = mk_dict ks f'"
    by blast
  then have "\<exists>probDict. to_prob countDict n = Inr probDict"
    using assms(4) by (simp add: to_prob_mk_dict)
  then show ?thesis
    by (auto simp: sample_pagerank_def Let_def ks_def [symmetric] init ch i1 loop)
qed

text \<open>
  C7. Whenever the sampling estimator returns, its counters sum to \<open>n\<close> and its
  estimates to 1 (\<open>sample_pagerank_result\<close>, \<open>sample_pagerank_sum\<close>), and on a corpus
  without dead ends it always returns (\<open>sample_pagerank_returns\<close>). On a corpus with a
  dead end the walk can stand on that page with a draw still to make; the transition
  model then raises, and the estimator returns no counters at all.
\<close>
theorem sample_pagerank_dead_end_raises:
  "sample_pagerank [(''A'', [''B'']), (''B'', [])] damping_factor 2 1 us = Inl ZeroDivisionError"
  by (subst sample_loop.simps | simp add: sample_pagerank_def choice_def incr_def dict_get_def transition_model_def py_div_def)+

text \<open>
  C8. With \<open>n = 1\<close> the loop body never runs: the start page drawn by \<open>random.choice\<close>
  gets estimate 1 and every other page 0. That page occurs once among the keys, so
  exactly one entry is 1. The transition model is not called, so dead ends do not matter here.
\<close>
theorem sample_pagerank_one_sample:
  assumes "valid_corpus corpus" and "corpus \<noteq> []"
  shows "\<exists>chosen\<in>set (map fst corpus).
           choice (map fst corpus) k = Inr chosen \<and>
           sample_pagerank corpus damping_factor 1 k us =
             Inr (map (\<lambda>page. (page, if page = chosen then 1 else 0)) (map fst corpus)) \<and>
           count_list (map fst corpus) chosen = 1"
proof -
  define ks where "ks = map fst corpus"
  have dk: "distinct ks" using assms(1) by (simp add: valid_corpus_def ks_def)
  have init: "fold (\<lambda>key countDict. dict_set countDict key 0) ks [] = mk_dict ks (\<lambda>_. 0::int)"
    using dk by (rule fold_dict_set_const)
  have "ks \<noteq> []" using assms(2) by (simp add: ks_def)
  then obtain chosen where ch: "chosen \<in> set ks" "choice ks k = Inr chosen"
    using choice_in_set by blast
  let ?f = "(\<lambda>_. 0::int)(chosen := 1)"
  have i1: "incr (mk_dict ks (\<lambda>_. 0::int)) chosen = Inr (mk_dict ks ?f)"
    using incr_mk_dict [OF dk ch(1), of "\<lambda>_. 0"] by simp
  have "sample_pagerank corpus damping_factor 1 k us =
          Inr (mk_dict ks (\<lambda>page. real_of_int (?f page) / real_of_int 1))"
    by (simp add: sample_pagerank_def Let_def ks_def [symmetric] init ch i1 sample_loop_done
                  to_prob_mk_dict del: fun_upd_apply)
  also have "mk_dict ks (\<lambda>page. real_of_int (?f page) / real_of_int 1) =
             map (\<lambda>page. (page, if page = chosen then 1 else 0)) ks"
    by (simp add: mk_dict_def)
  finally have "sample_pagerank corpus damping_factor 1 k us =
             Inr (map (\<lambda>page. (page, if page = chosen then 1 else 0)) ks)" .
  moreover have "count_list ks chosen = 1"
    using dk ch(1) by (simp add: distinct_count_list)
  ultimately show ?thesis using ch unfolding ks_def by blast
qed

theorem sample_pagerank_one_sample_witness:
  "valid_corpus [(''A'', [''B'']), (''B'', [])] \<and> [(''A'', [''B'']), (''B'', [])] \<noteq> []
   \<and> sample_pagerank [(''A'', [''B'']), (''B'', [])] (85 / 100) 1 1 (\<lambda>i. 1 / 2) =
       Inr [(''A'', 0), (''B'', 1)]"
proof -
  have v: "valid_corpus [(''A'', [''B'']), (''B'', [])]"
    by (simp add: valid_corpus_def)
  show ?thesis
    using sample_pagerank_one_sample [OF v, of 1 "85 / 100" "\<lambda>i. 1 / 2"] v
    by (simp add: choice_def)
qed

subsection \<open>One pass of the iterative estimator\<close>

lemma sum_links_mk_dict:
  "fst ` set items \<subseteq> set ks \<Longrightarrow>
   sum_links items d (mk_dict ks r) page acc =
     Inr (acc + d * (\<Sum>item\<leftarrow>items. link_weight page item * r (fst item)))"
proof (induction items arbitrary: acc)
  case Nil
  then show ?case by simp
next
  case (Cons item items)
  obtain link linked_pages where item: "item = (link, linked_pages)" by (cases item)
  have link: "link \<in> set ks" and rest: "fst ` set items \<subseteq> set ks"
    using Cons.prems item by auto
  show ?case
  proof (cases "page \<in> set linked_pages")
    case True
    then have "linked_pages \<noteq> []" by auto
    then show ?thesis
      using True link Cons.IH [OF rest] item
      by (simp add: dict_get_mk_dict py_div_def link_weight_def algebra_simps)
  next
    case False
    then show ?thesis
      using Cons.IH [OF rest] item by (simp add: link_weight_def)
  qed
qed

lemma sum_links_new_rank:
  "corpus \<noteq> [] \<Longrightarrow>
   sum_links corpus d (mk_dict (map fst corpus) r) page ((1 - d) / real (length corpus)) =
     Inr (new_rank corpus d r page)"
  by (simp add: sum_links_mk_dict new_rank_def)

lemma iterate_pass_mk_dict:
  assumes "distinct (map fst corpus)"
  shows "set pages \<subseteq> set (map fst corpus) \<Longrightarrow>
     iterate_pass corpus d pages (mk_dict (map fst corpus) r) flag =
       Inr (mk_dict (map fst corpus) (in_place_pass corpus d pages r),
            flag \<or> pass_flag corpus d pages r)"
proof (induction pages arbitrary: r flag)
  case Nil
  then show ?case by simp
next
  case (Cons page pages)
  have ne: "corpus \<noteq> []" using Cons.prems by auto
  have p: "page \<in> set (map fst corpus)" and rest: "set pages \<subseteq> set (map fst corpus)"
    using Cons.prems by auto
  let ?r1 = "r(page := new_rank corpus d r page)"
  let ?flag1 = "if \<bar>new_rank corpus d r page - r page\<bar> > minChange then True else flag"
  have "iterate_pass corpus d (page # pages) (mk_dict (map fst corpus) r) flag =
          iterate_pass corpus d pages (mk_dict (map fst corpus) ?r1) ?flag1"
    using ne p assms
    by (simp add: py_div_def sum_links_new_rank dict_get_mk_dict dict_set_mk_dict
             del: fun_upd_apply)
  also have "\<dots> = Inr (mk_dict (map fst corpus) (in_place_pass corpus d pages ?r1),
                        ?flag1 \<or> pass_flag corpus d pages ?r1)"
    by (rule Cons.IH [OF rest])
  finally show ?case by (simp del: fun_upd_apply)
qed

lemma in_place_pass_other: "q \<notin> set pages \<Longrightarrow> in_place_pass corpus d pages r q = r q"
  by (induction pages arbitrary: r) auto

lemma in_place_pass_append:
  "in_place_pass corpus d (ps @ qs) r = in_place_pass corpus d qs (in_place_pass corpus d ps r)"
  by (induction ps arbitrary: r) auto

lemma pass_flag_iff:
  "distinct pages \<Longrightarrow>
   pass_flag corpus d pages r \<longleftrightarrow>
     (\<exists>page\<in>set pages. \<bar>in_place_pass corpus d pages r page - r page\<bar> > minChange)"
proof (induction pages arbitrary: r)
  case Nil
  then show ?case by simp
next
  case (Cons p pages)
  let ?r1 = "r(p := new_rank corpus d r p)"
  have p: "p \<notin> set pages" and d: "distinct pages" using Cons.prems by auto
  have a: "in_place_pass corpus d pages ?r1 p = new_rank corpus d r p"
    using p by (simp add: in_place_pass_other)
  have b: "\<And>q. q \<in> set pages \<Longrightarrow> ?r1 q = r q" using p by auto
  show ?case
    using Cons.IH [OF d, of ?r1] a b by (auto simp del: fun_upd_apply)
qed

lemma rank_of_mk_dict: "k \<in> set ks \<Longrightarrow> rank_of (mk_dict ks r) k = r k"
  by (simp add: rank_of_def dict_get_mk_dict)

lemma new_rank_cong:
  assumes "\<And>q. q \<in> set (map fst corpus) \<Longrightarrow> r q = s q"
  shows "new_rank corpus d r page = new_rank corpus d s page"
proof -
  have "map (\<lambda>item. link_weight page item * r (fst item)) corpus =
        map (\<lambda>item. link_weight page item * s (fst item)) corpus"
    using assms by (intro map_cong) auto
  then have "(\<Sum>item\<leftarrow>corpus. link_weight page item * r (fst item)) =
             (\<Sum>item\<leftarrow>corpus. link_weight page item * s (fst item))"
    by (rule arg_cong)
  then show ?thesis unfolding new_rank_def by (simp only:)
qed

lemma in_place_pass_at:
  assumes "distinct ks" "i < length ks"
  shows "in_place_pass corpus d ks r (ks ! i) =
           new_rank corpus d (in_place_pass corpus d (take i ks) r) (ks ! i)"
proof -
  have split: "ks = take i ks @ ks ! i # drop (Suc i) ks"
    using assms(2) by (rule id_take_nth_drop)
  have "distinct (take i ks @ ks ! i # drop (Suc i) ks)"
    using assms(1) split by simp
  then have notin: "ks ! i \<notin> set (drop (Suc i) ks)" by simp
  let ?r = "in_place_pass corpus d (take i ks) r"
  have "in_place_pass corpus d ks r =
          in_place_pass corpus d (take i ks @ ks ! i # drop (Suc i) ks) r"
    using split by simp
  also have "\<dots> = in_place_pass corpus d (drop (Suc i) ks)
                      (?r(ks ! i := new_rank corpus d ?r (ks ! i)))"
    by (simp only: in_place_pass_append in_place_pass.simps)
  finally show ?thesis using notin by (simp add: in_place_pass_other)
qed

lemma in_place_pass_prefix:
  assumes "distinct ks"
  shows "in_place_pass corpus d (take i ks) r q =
           (if q \<in> set (take i ks) then in_place_pass corpus d ks r q else r q)"
proof (cases "q \<in> set (take i ks)")
  case False
  then show ?thesis by (simp add: in_place_pass_other)
next
  case True
  have "set (take i ks) \<inter> set (drop i ks) = {}"
    using assms by (simp add: set_take_disj_set_drop_if_distinct)
  then have "q \<notin> set (drop i ks)" using True by auto
  moreover have "in_place_pass corpus d ks r =
      in_place_pass corpus d (drop i ks) (in_place_pass corpus d (take i ks) r)"
    using in_place_pass_append [of corpus d "take i ks" "drop i ks" r] by simp
  ultimately show ?thesis using True by (simp add: in_place_pass_other)
qed

lemma iterate_pass_full:
  assumes "distinct (map fst corpus)" "map fst probDict = map fst corpus"
  shows "iterate_pass corpus d (map fst corpus) probDict False =
           Inr (mk_dict (map fst corpus)
                  (in_place_pass corpus d (map fst corpus) (\<lambda>k. the (map_of probDict k))),
                pass_flag corpus d (map fst corpus) (\<lambda>k. the (map_of probDict k)))"
proof -
  have "probDict = mk_dict (map fst corpus) (\<lambda>k. the (map_of probDict k))"
    using is_mk_dict [of probDict] assms by simp
  then have "iterate_pass corpus d (map fst corpus) probDict False =
     iterate_pass corpus d (map fst corpus) (mk_dict (map fst corpus) (\<lambda>k. the (map_of probDict k))) False"
    by simp
  then show ?thesis using iterate_pass_mk_dict [OF assms(1), of "map fst corpus"] by simp
qed

lemma rank_of_the_map_of:
  "k \<in> set (map fst probDict) \<Longrightarrow> the (map_of probDict k) = rank_of probDict k"
  by (cases "map_of probDict k") (auto simp: rank_of_def dict_get_def map_of_eq_None_iff)

text \<open>
  C2. The spec lets a page without links contribute \<open>d * rank / N\<close> to every page. In
  the code a page contributes only where \<open>page in linked_pages\<close> holds, which is
  never the case for an empty link set. In the corpus \<open>A -> B\<close>, \<open>B\<close> a dead end, from
  ranks \<open>1/2, 1/2\<close> and \<open>d = 0.85\<close>, the new rank of \<open>A\<close> is the bare \<open>(1 - d)/N = 3/40\<close>;
  with the contribution of \<open>B\<close> it would be \<open>23/80\<close>.
\<close>
theorem iterate_pass_dead_end_contributes_nothing:
  "iterate_pass [(''A'', [''B'']), (''B'', [])] (17 / 20) [''A'', ''B'']
       [(''A'', 1 / 2), (''B'', 1 / 2)] False
     = Inr ([(''A'', 3 / 40), (''B'', 111 / 800)], True)
   \<and> (1 - 17 / 20) / 2 = (3 / 40 :: real)
   \<and> (1 - 17 / 20) / 2 + (17 / 20) * (1 / 2) / 2 = (23 / 80 :: real)"
  by (simp add: py_div_def dict_get_def minChange_def)

text \<open>
  C4, as stated. The pass is not synchronous. In the corpus \<open>A -> B\<close>, \<open>B -> A\<close>,
  \<open>C -> A\<close>, from ranks \<open>1/3\<close>, the new rank of \<open>B\<close> is computed from the rank of \<open>A\<close>
  that the same pass has just written (\<open>689/1200\<close>), not from the previous one (\<open>1/3\<close>).
\<close>
theorem iterate_pass_not_synchronous:
  "iterate_pass [(''A'', [''B'']), (''B'', [''A'']), (''C'', [''A''])] (17 / 20)
       [''A'', ''B'', ''C''] [(''A'', 1 / 3), (''B'', 1 / 3), (''C'', 1 / 3)] False
     = Inr ([(''A'', 37 / 60), (''B'', 689 / 1200), (''C'', 1 / 20)], True)
   \<and> synchronous_pass [(''A'', [''B'']), (''B'', [''A'']), (''C'', [''A''])] (17 / 20)
       [(''A'', 1 / 3), (''B'', 1 / 3), (''C'', 1 / 3)]
     = [(''A'', 37 / 60), (''B'', 1 / 3), (''C'', 1 / 20)]
   \<and> (689 / 1200 :: real) \<noteq> 1 / 3"
  by (simp add: py_div_def dict_get_def minChange_def
                synchronous_pass_def new_rank_def link_weight_def rank_of_def)

text \<open>
  C4, amended. Each pass updates the ranks in place, in the order of the corpus: the new
  rank of the \<open>i\<close>-th page is computed from the new ranks of the pages before it and
  from the previous ranks of all others.
\<close>
theorem iterate_pass_in_place:
  assumes "valid_corpus corpus" and "map fst probDict = map fst corpus"
  shows "\<exists>probDict' flag.
           iterate_pass corpus d (map fst corpus) probDict False = Inr (probDict', flag) \<and>
           map fst probDict' = map fst corpus \<and>
           (\<forall>i<length corpus.
              rank_of probDict' (map fst corpus ! i) =
                new_rank corpus d
                  (\<lambda>q. if q \<in> set (take i (map fst corpus)) then rank_of probDict' q
                       else rank_of probDict q)
                  (map fst corpus ! i))"
proof -
  define ks where "ks = map fst corpus"
  define r where "r = (\<lambda>k. the (map_of probDict k))"
  define r' where "r' = in_place_pass corpus d ks r"
  have dk: "distinct ks" using assms(1) by (simp add: valid_corpus_def ks_def)
  have pass: "iterate_pass corpus d ks probDict False =
                Inr (mk_dict ks r', pass_flag corpus d ks r)"
    using iterate_pass_full [of corpus probDict d] dk assms(2)
    by (simp add: ks_def r_def r'_def)
  have "rank_of (mk_dict ks r') (ks ! i) =
          new_rank corpus d
            (\<lambda>q. if q \<in> set (take i ks) then rank_of (mk_dict ks r') q else rank_of probDict q)
            (ks ! i)" if i: "i < length corpus" for i
  proof -
    have il: "i < length ks" using i by (simp add: ks_def)
    have "rank_of (mk_dict ks r') (ks ! i) = r' (ks ! i)"
      using il by (simp add: rank_of_mk_dict)
    also have "\<dots> = new_rank corpus d (in_place_pass corpus d (take i ks) r) (ks ! i)"
      unfolding r'_def using dk il by (rule in_place_pass_at)
    also have "\<dots> = new_rank corpus d
            (\<lambda>q. if q \<in> set (take i ks) then rank_of (mk_dict ks r') q else rank_of probDict q)
            (ks ! i)"
    proof (rule new_rank_cong)
      fix q assume q: "q \<in> set (map fst corpus)"
      then have qk: "q \<in> set ks" by (simp add: ks_def)
      have "q \<in> set (map fst probDict)" using q assms(2) by simp
      then have "r q = rank_of probDict q" unfolding r_def by (rule rank_of_the_map_of)
      then show "in_place_pass corpus d (take i ks) r q =
              (if q \<in> set (take i ks) then rank_of (mk_dict ks r') q else rank_of probDict q)"
        using qk by (simp add: in_place_pass_prefix [OF dk] rank_of_mk_dict r'_def)
    qed
    finally show ?thesis .
  qed
  then show ?thesis using pass unfolding ks_def [symmetric] by (intro exI conjI) auto
qed

theorem iterate_pass_in_place_witness:
  "valid_corpus [(''A'', [''B'']), (''B'', [''A'']), (''C'', [''A''])]
   \<and> (\<exists>probDict' flag.
        iterate_pass [(''A'', [''B'']), (''B'', [''A'']), (''C'', [''A''])] (17 / 20)
          [''A'', ''B'', ''C''] [(''A'', 1 / 3), (''B'', 1 / 3), (''C'', 1 / 3)] False
          = Inr (probDict', flag)
        \<and> rank_of probDict' ''B'' =
            new_rank [(''A'', [''B'']), (''B'', [''A'']), (''C'', [''A''])] (17 / 20)
              (\<lambda>q. if q \<in> {''A''} then rank_of probDict' q
                   else rank_of [(''A'', 1 / 3), (''B'', 1 / 3), (''C'', 1 / 3)] q) ''B'')"
proof -
  have v: "valid_corpus [(''A'', [''B'']), (''B'', [''A'']), (''C'', [''A''])]"
    by (simp add: valid_corpus_def)
  have k: "map fst [(''A'', 1 / 3 :: real), (''B'', 1 / 3), (''C'', 1 / 3)] =
           map fst [(''A'', [''B'']), (''B'', [''A'']), (''C'', [''A''])]"
    by simp
  from iterate_pass_in_place [OF v k, of "17 / 20"] obtain probDict' flag where
    p: "iterate_pass [(''A'', [''B'']), (''B'', [''A'']), (''C'', [''A''])] (17 / 20)
          [''A'', ''B'', ''C''] [(''A'', 1 / 3), (''B'', 1 / 3), (''C'', 1 / 3)] False
          = Inr (probDict', flag)"
    and a: "\<forall>i<length [(''A'', [''B'']), (''B'', [''A'']), (''C'', [''A''])].
              rank_of probDict' (map fst [(''A'', [''B'']), (''B'', [''A'']), (''C'', [''A''])] ! i) =
                new_rank [(''A'', [''B'']), (''B'', [''A'']), (''C'', [''A''])] (17 / 20)
                  (\<lambda>q. if q \<in> set (take i (map fst [(''A'', [''B'']), (''B'', [''A'']), (''C'', [''A''])]))
                       then rank_of probDict' q
                       else rank_of [(''A'', 1 / 3), (''B'', 1 / 3), (''C'', 1 / 3)] q)
                  (map fst [(''A'', [''B'']), (''B'', [''A'']), (''C'', [''A''])] ! i)"
    by auto
  from a have "rank_of probDict' ''B'' =
            new_rank [(''A'', [''B'']), (''B'', [''A'']), (''C'', [''A''])] (17 / 20)
              (\<lambda>q. if q \<in> {''A''} then rank_of probDict' q
                   else rank_of [(''A'', 1 / 3), (''B'', 1 / 3), (''C'', 1 / 3)] q) ''B''"
    by (auto dest: spec [of _ 1])
  with p v show ?thesis by blast
qed

text \<open>
  C6, as stated. The estimator takes the corpus and the damping factor and nothing else.
  A caller who wants the threshold 1 cannot have it: on the one-page corpus the rank
  moves from 1 to \<open>3/20\<close>, which is within 1, and the pass still reports a change.
\<close>
theorem iterate_pass_ignores_supplied_threshold:
  "iterate_pass [(''A'', [])] (17 / 20) [''A''] [(''A'', 1)] False
     = Inr ([(''A'', 3 / 20)], True)
   \<and> converged_within 1 [''A''] [(''A'', 1)] [(''A'', 3 / 20)]"
  by (simp add: py_div_def dict_get_def minChange_def converged_within_def rank_of_def)

text \<open>
  C6, amended. Convergence is judged against the constant \<open>minChange = 0.001\<close> of the
  function body: a pass raises its flag exactly when some page's rank moved by more than
  \<open>1/1000\<close>.
\<close>
theorem iterate_pass_fixed_threshold:
  assumes "valid_corpus corpus" and "map fst probDict = map fst corpus"
  shows "\<exists>probDict' flag.
           iterate_pass corpus d (map fst corpus) probDict False = Inr (probDict', flag) \<and>
           (flag \<longleftrightarrow> \<not> converged_within (1 / 1000) (map fst corpus) probDict probDict')"
proof -
  define ks where "ks = map fst corpus"
  define r where "r = (\<lambda>k. the (map_of probDict k))"
  define r' where "r' = in_place_pass corpus d ks r"
  have dk: "distinct ks" using assms(1) by (simp add: valid_corpus_def ks_def)
  have pass: "iterate_pass corpus d ks probDict False =
                Inr (mk_dict ks r', pass_flag corpus d ks r)"
    using iterate_pass_full [of corpus probDict d] dk assms(2)
    by (simp add: ks_def r_def r'_def)
  have old: "rank_of probDict page = r page" if "page \<in> set ks" for page
    using that assms(2) rank_of_the_map_of [of page probDict] by (simp add: ks_def r_def)
  have "pass_flag corpus d ks r \<longleftrightarrow> (\<exists>page\<in>set ks. \<bar>r' page - r page\<bar> > minChange)"
    unfolding r'_def using dk by (rule pass_flag_iff)
  also have "\<dots> \<longleftrightarrow> \<not> converged_within (1 / 1000) ks probDict (mk_dict ks r')"
    by (auto simp: converged_within_def list_all_iff rank_of_mk_dict old minChange_def not_le)
  finally show ?thesis using pass unfolding ks_def [symmetric] by blast
qed

theorem iterate_pass_fixed_threshold_witness:
  "valid_corpus [(''A'', [])]
   \<and> (\<exists>probDict' flag.
        iterate_pass [(''A'', [])] (17 / 20) [''A''] [(''A'', 1)] False = Inr (probDict', flag)
        \<and> (flag \<longleftrightarrow> \<not> converged_within (1 / 1000) [''A''] [(''A'', 1)] probDict'))"
proof -
  have v: "valid_corpus [(''A'', [])]"
    by (simp add: valid_corpus_def)
  have k: "map fst [(''A'', 1 :: real)] = map fst [(''A'', [])]"
    by simp
  show ?thesis
    using iterate_pass_fixed_threshold [OF v k, of "17 / 20"] v by simp
qed

subsection \<open>The weights of a pass\<close>

lemma link_weight_nonneg: "0 \<le> link_weight p item"
  by (simp add: link_weight_def)

lemma sum_link_weight_nonneg: "0 \<le> (\<Sum>p\<leftarrow>pages. link_weight p item)"
  by (rule sum_list_nonneg) (auto simp: link_weight_nonneg)

lemma later_plus_earlier:
  "later_weight pages item + earlier_weight pages item = (\<Sum>p\<leftarrow>pages. link_weight p item)"
  by (induction pages) auto

lemma later_weight_nonneg: "0 \<le> later_weight pages item"
  by (induction pages) (auto simp: sum_link_weight_nonneg)

lemma earlier_weight_nonneg: "0 \<le> earlier_weight pages item"
  by (induction pages) (auto simp: link_weight_nonneg)

lemma column_sum:
  assumes "valid_corpus corpus" "item \<in> set corpus"
  shows "(\<Sum>p\<leftarrow>map fst corpus. link_weight p item) = (if snd item = [] then 0 else 1)"
proof -
  obtain q links where item: "item = (q, links)" by (cases item)
  have dk: "distinct (map fst corpus)" using assms(1) by (simp add: valid_corpus_def)
  have dl: "distinct links" and sub: "set links \<subseteq> set (map fst corpus)"
    using assms item by (auto simp: valid_corpus_def list_all_iff)
  have "(\<Sum>p\<leftarrow>map fst corpus. link_weight p item) =
        (\<Sum>p\<leftarrow>map fst corpus. if p \<in> set links then 1 / real (length links) else 0)"
    unfolding link_weight_def item snd_conv ..
  also have "\<dots> = real (length links) * (1 / real (length links))"
    using dk dl sub by (rule sum_list_indicator)
  also have "\<dots> = (if snd item = [] then 0 else 1)"
    by (simp add: item)
  finally show ?thesis .
qed

lemma later_weight_le_1:
  assumes "valid_corpus corpus" "item \<in> set corpus"
  shows "later_weight (map fst corpus) item \<le> 1"
proof -
  have "later_weight (map fst corpus) item \<le>
        later_weight (map fst corpus) item + earlier_weight (map fst corpus) item"
    by (simp add: earlier_weight_nonneg)
  also have "\<dots> \<le> 1" unfolding later_plus_earlier column_sum [OF assms] by simp
  finally show ?thesis .
qed

lemma earlier_weight_le:
  assumes "valid_corpus corpus" "item \<in> set corpus"
  shows "earlier_weight (map fst corpus) item \<le> 1 - later_weight (map fst corpus) item"
proof -
  have "later_weight (map fst corpus) item + earlier_weight (map fst corpus) item \<le> 1"
    unfolding later_plus_earlier column_sum [OF assms] by simp
  then show ?thesis by simp
qed


subsection \<open>What one pass does to a sum of ranks\<close>


subsection \<open>A pass contracts\<close>

lemma new_rank_diff:
  "new_rank corpus d y p - new_rank corpus d x p =
     d * (\<Sum>item\<leftarrow>corpus. link_weight p item * (y (fst item) - x (fst item)))"
proof -
  have "(\<Sum>item\<leftarrow>corpus. link_weight p item * (y (fst item) - x (fst item))) =
        (\<Sum>item\<leftarrow>corpus. link_weight p item * y (fst item)) -
        (\<Sum>item\<leftarrow>corpus. link_weight p item * x (fst item))"
    unfolding right_diff_distrib by (rule sum_list_subtractf)
  then show ?thesis by (simp add: new_rank_def right_diff_distrib)
qed

lemma new_rank_diff_le:
  assumes "0 \<le> d"
  shows "\<bar>new_rank corpus d y p - new_rank corpus d x p\<bar> \<le>
           d * (\<Sum>item\<leftarrow>corpus. link_weight p item * \<bar>y (fst item) - x (fst item)\<bar>)"
proof -
  have "\<bar>\<Sum>item\<leftarrow>corpus. link_weight p item * (y (fst item) - x (fst item))\<bar> \<le>
        (\<Sum>item\<leftarrow>corpus. \<bar>link_weight p item * (y (fst item) - x (fst item))\<bar>)"
    using sum_list_abs [of "map (\<lambda>item. link_weight p item * (y (fst item) - x (fst item))) corpus"]
    by (simp add: comp_def)
  also have "\<dots> = (\<Sum>item\<leftarrow>corpus. link_weight p item * \<bar>y (fst item) - x (fst item)\<bar>)"
    by (simp add: abs_mult link_weight_nonneg)
  finally show ?thesis
    using assms by (simp add: new_rank_diff abs_mult mult_left_mono)
qed

lemma pass_diff:
  assumes "0 \<le> d"
  shows "distinct pages \<Longrightarrow>
   (\<Sum>p\<leftarrow>pages. \<bar>in_place_pass corpus d pages y p - in_place_pass corpus d pages x p\<bar>) \<le>
     d * (\<Sum>item\<leftarrow>corpus.
            later_weight pages item *
              \<bar>in_place_pass corpus d pages y (fst item) - in_place_pass corpus d pages x (fst item)\<bar> +
            earlier_weight pages item * \<bar>y (fst item) - x (fst item)\<bar>)"
proof (induction pages arbitrary: x y)
  case Nil
  then show ?case by simp
next
  case (Cons p pages)
  let ?x1 = "x(p := new_rank corpus d x p)"
  let ?y1 = "y(p := new_rank corpus d y p)"
  let ?x' = "in_place_pass corpus d pages ?x1"
  let ?y' = "in_place_pass corpus d pages ?y1"
  have p: "p \<notin> set pages" and dp: "distinct pages" using Cons.prems by auto
  have x'p: "?x' p = new_rank corpus d x p" and y'p: "?y' p = new_rank corpus d y p"
    using p by (simp_all add: in_place_pass_other)
  have pointwise: "link_weight p item * \<bar>y (fst item) - x (fst item)\<bar> +
          (later_weight pages item * \<bar>?y' (fst item) - ?x' (fst item)\<bar> +
           earlier_weight pages item * \<bar>?y1 (fst item) - ?x1 (fst item)\<bar>) =
        later_weight (p # pages) item * \<bar>?y' (fst item) - ?x' (fst item)\<bar> +
        earlier_weight (p # pages) item * \<bar>y (fst item) - x (fst item)\<bar>"
    for item
  proof (cases "fst item = p")
    case True
    have "later_weight pages item * \<bar>?y' p - ?x' p\<bar> + earlier_weight pages item * \<bar>?y' p - ?x' p\<bar> =
          (\<Sum>p'\<leftarrow>pages. link_weight p' item) * \<bar>?y' p - ?x' p\<bar>"
      by (simp add: later_plus_earlier [symmetric] algebra_simps)
    then show ?thesis using True x'p y'p by simp
  next
    case False
    then show ?thesis by (simp add: algebra_simps)
  qed
  have "(\<Sum>q\<leftarrow>p # pages. \<bar>in_place_pass corpus d (p # pages) y q - in_place_pass corpus d (p # pages) x q\<bar>) =
        \<bar>new_rank corpus d y p - new_rank corpus d x p\<bar> + (\<Sum>q\<leftarrow>pages. \<bar>?y' q - ?x' q\<bar>)"
    using x'p y'p by simp
  also have "\<dots> \<le> d * (\<Sum>item\<leftarrow>corpus. link_weight p item * \<bar>y (fst item) - x (fst item)\<bar>) +
        d * (\<Sum>item\<leftarrow>corpus. later_weight pages item * \<bar>?y' (fst item) - ?x' (fst item)\<bar> +
                              earlier_weight pages item * \<bar>?y1 (fst item) - ?x1 (fst item)\<bar>)"
    using new_rank_diff_le [OF assms, of corpus y p x] Cons.IH [OF dp, of ?y1 ?x1]
    by (rule add_mono)
  also have "\<dots> =
        d * (\<Sum>item\<leftarrow>corpus. link_weight p item * \<bar>y (fst item) - x (fst item)\<bar> +
               (later_weight pages item * \<bar>?y' (fst item) - ?x' (fst item)\<bar> +
                earlier_weight pages item * \<bar>?y1 (fst item) - ?x1 (fst item)\<bar>))"
    unfolding sum_list_addf by (simp add: distrib_left)
  also have "\<dots> =
        d * (\<Sum>item\<leftarrow>corpus. later_weight (p # pages) item * \<bar>?y' (fst item) - ?x' (fst item)\<bar> +
                             earlier_weight (p # pages) item * \<bar>y (fst item) - x (fst item)\<bar>)"
    by (simp only: pointwise)
  finally show ?case by simp
qed

lemma sum_list_keys: "(\<Sum>p\<leftarrow>map fst corpus. f p) = (\<Sum>item\<leftarrow>corpus. f (fst item))"
  by (simp add: comp_def)

lemma change_contracts:
  assumes "valid_corpus corpus" "0 \<le> d" "d \<le> 1"
  shows "change corpus d (in_place_pass corpus d (map fst corpus) x)
                         (in_place_pass corpus d (map fst corpus) y)
           \<le> d * change corpus d x y"
proof -
  define ks where "ks = map fst corpus"
  define e where "e = (\<lambda>q. \<bar>y q - x q\<bar>)"
  define e' where "e' = (\<lambda>q. \<bar>in_place_pass corpus d ks y q - in_place_pass corpus d ks x q\<bar>)"
  define lw where "lw = later_weight ks"
  define uw where "uw = earlier_weight ks"
  have dk: "distinct ks" using assms(1) by (simp add: valid_corpus_def ks_def)
  have "(\<Sum>item\<leftarrow>corpus. e' (fst item)) = (\<Sum>p\<leftarrow>ks. e' p)"
    unfolding ks_def by (rule sum_list_keys [symmetric])
  also have "\<dots> \<le> d * (\<Sum>item\<leftarrow>corpus. lw item * e' (fst item) + uw item * e (fst item))"
    unfolding e'_def e_def lw_def uw_def using assms(2) dk by (rule pass_diff)
  also have "\<dots> = d * (\<Sum>item\<leftarrow>corpus. lw item * e' (fst item)) +
                   d * (\<Sum>item\<leftarrow>corpus. uw item * e (fst item))"
    unfolding sum_list_addf by (simp add: distrib_left)
  finally have main: "(\<Sum>item\<leftarrow>corpus. e' (fst item)) - d * (\<Sum>item\<leftarrow>corpus. lw item * e' (fst item))
                        \<le> d * (\<Sum>item\<leftarrow>corpus. uw item * e (fst item))"
    by simp
  have "(\<Sum>item\<leftarrow>corpus. (1 - d * lw item) * e' (fst item)) =
        (\<Sum>item\<leftarrow>corpus. e' (fst item) - d * (lw item * e' (fst item)))"
    by (simp add: left_diff_distrib mult.assoc)
  also have "\<dots> = (\<Sum>item\<leftarrow>corpus. e' (fst item)) - (\<Sum>item\<leftarrow>corpus. d * (lw item * e' (fst item)))"
    by (rule sum_list_subtractf)
  also have "\<dots> = (\<Sum>item\<leftarrow>corpus. e' (fst item)) - d * (\<Sum>item\<leftarrow>corpus. lw item * e' (fst item))"
    by (simp add: sum_list_const_mult)
  finally have lhs: "(\<Sum>item\<leftarrow>corpus. (1 - d * lw item) * e' (fst item)) =
      (\<Sum>item\<leftarrow>corpus. e' (fst item)) - d * (\<Sum>item\<leftarrow>corpus. lw item * e' (fst item))" .
  have "(\<Sum>item\<leftarrow>corpus. uw item * e (fst item)) \<le> (\<Sum>item\<leftarrow>corpus. (1 - d * lw item) * e (fst item))"
  proof (rule sum_list_mono)
    fix item assume item: "item \<in> set corpus"
    have "uw item \<le> 1 - lw item"
      unfolding uw_def lw_def ks_def using assms(1) item by (rule earlier_weight_le)
    moreover have "d * lw item \<le> 1 * lw item"
      using assms(3) by (intro mult_right_mono) (simp_all add: lw_def later_weight_nonneg)
    ultimately have "uw item \<le> 1 - d * lw item" by simp
    moreover have "0 \<le> e (fst item)" by (simp add: e_def)
    ultimately show "uw item * e (fst item) \<le> (1 - d * lw item) * e (fst item)"
      by (rule mult_right_mono)
  qed
  then have "d * (\<Sum>item\<leftarrow>corpus. uw item * e (fst item)) \<le>
             d * (\<Sum>item\<leftarrow>corpus. (1 - d * lw item) * e (fst item))"
    using assms(2) by (rule mult_left_mono)
  with main lhs have "(\<Sum>item\<leftarrow>corpus. (1 - d * lw item) * e' (fst item)) \<le>
             d * (\<Sum>item\<leftarrow>corpus. (1 - d * lw item) * e (fst item))"
    by simp
  then show ?thesis
    unfolding change_def e_def e'_def lw_def ks_def .
qed

lemma change_bounds_page:
  assumes "valid_corpus corpus" "0 \<le> d" "d \<le> 1" "q \<in> set (map fst corpus)"
  shows "(1 - d) * \<bar>y q - x q\<bar> \<le> change corpus d x y"
proof -
  let ?t = "\<lambda>item. (1 - d * later_weight (map fst corpus) item) * \<bar>y (fst item) - x (fst item)\<bar>"
  have coeff: "1 - d \<le> 1 - d * later_weight (map fst corpus) item" if "item \<in> set corpus" for item
  proof -
    have "d * later_weight (map fst corpus) item \<le> d * 1"
      using assms(2) later_weight_le_1 [OF assms(1) that] by (rule mult_left_mono [rotated])
    then show ?thesis by simp
  qed
  from assms(4) obtain item where item: "item \<in> set corpus" "fst item = q" by auto
  have "(1 - d) * \<bar>y q - x q\<bar> \<le> ?t item"
    using coeff [OF item(1)] item(2) by (simp add: mult_right_mono)
  also have "?t item \<le> sum_list (map ?t corpus)"
  proof (rule member_le_sum_list)
    show "?t item \<in> set (map ?t corpus)" using item(1) by simp
  next
    fix v assume "v \<in> set (map ?t corpus)"
    then obtain it where it: "it \<in> set corpus" "v = ?t it" by auto
    have "0 \<le> 1 - d * later_weight (map fst corpus) it"
      using coeff [OF it(1)] assms(3) by simp
    then show "0 \<le> v" unfolding it(2) by (intro mult_nonneg_nonneg) simp_all
  qed
  finally show ?thesis by (simp add: change_def)
qed

lemma change_nonneg:
  assumes "valid_corpus corpus" "0 \<le> d" "d \<le> 1"
  shows "0 \<le> change corpus d x y"
  unfolding change_def
proof (rule sum_list_nonneg)
  fix v assume "v \<in> set (map (\<lambda>item. (1 - d * later_weight (map fst corpus) item) *
                                     \<bar>y (fst item) - x (fst item)\<bar>) corpus)"
  then obtain it where it: "it \<in> set corpus"
      "v = (1 - d * later_weight (map fst corpus) it) * \<bar>y (fst it) - x (fst it)\<bar>" by auto
  have "d * later_weight (map fst corpus) it \<le> 1 * 1"
    using assms(2,3) later_weight_le_1 [OF assms(1) it(1)]
    by (intro mult_mono) (simp_all add: later_weight_nonneg)
  then have "0 \<le> 1 - d * later_weight (map fst corpus) it" by simp
  then show "0 \<le> v" unfolding it(2) by (intro mult_nonneg_nonneg) simp_all
qed

lemma change_iterates:
  assumes "valid_corpus corpus" "0 \<le> d" "d \<le> 1"
  shows "change corpus d ((in_place_pass corpus d (map fst corpus) ^^ k) x)
                         ((in_place_pass corpus d (map fst corpus) ^^ Suc k) x)
           \<le> d ^ k * change corpus d x (in_place_pass corpus d (map fst corpus) x)"
proof (induction k)
  case 0
  then show ?case by simp
next
  case (Suc k)
  let ?P = "in_place_pass corpus d (map fst corpus)"
  have "change corpus d ((?P ^^ Suc k) x) ((?P ^^ Suc (Suc k)) x) =
        change corpus d (?P ((?P ^^ k) x)) (?P ((?P ^^ Suc k) x))"
    by simp
  also have "\<dots> \<le> d * change corpus d ((?P ^^ k) x) ((?P ^^ Suc k) x)"
    using assms by (rule change_contracts)
  also have "\<dots> \<le> d * (d ^ k * change corpus d x (?P x))"
    using Suc.IH assms(2) by (rule mult_left_mono)
  finally show ?case by (simp add: mult.assoc)
qed

lemma some_pass_converges:
  assumes "valid_corpus corpus" "0 \<le> d" "d < 1"
  shows "\<exists>k. \<not> pass_flag corpus d (map fst corpus)
                  ((in_place_pass corpus d (map fst corpus) ^^ k) x)"
proof -
  let ?P = "in_place_pass corpus d (map fst corpus)"
  define c where "c = change corpus d x (?P x)"
  have dk: "distinct (map fst corpus)" using assms(1) by (simp add: valid_corpus_def)
  have d1: "d \<le> 1" using assms(3) by simp
  have c0: "0 \<le> c" unfolding c_def using assms(1,2) d1 by (rule change_nonneg)
  have "0 < (1 - d) * minChange / (c + 1)"
    using assms(3) c0 by (simp add: minChange_def)
  from real_arch_pow_inv [OF this assms(3)] obtain k where
    k: "d ^ k < (1 - d) * minChange / (c + 1)" by blast
  have "d ^ k * c \<le> d ^ k * (c + 1)"
    using assms(2) by (intro mult_left_mono) simp_all
  also have "\<dots> < (1 - d) * minChange"
    using k c0 by (simp add: pos_less_divide_eq)
  finally have small: "d ^ k * c < (1 - d) * minChange" .
  have "\<not> \<bar>?P ((?P ^^ k) x) p - (?P ^^ k) x p\<bar> > minChange" if p: "p \<in> set (map fst corpus)" for p
  proof -
    have "(1 - d) * \<bar>?P ((?P ^^ k) x) p - (?P ^^ k) x p\<bar> \<le>
          change corpus d ((?P ^^ k) x) (?P ((?P ^^ k) x))"
      using assms(1,2) d1 p by (rule change_bounds_page)
    also have "\<dots> \<le> d ^ k * c"
      unfolding c_def using change_iterates [OF assms(1,2) d1, of k x] by simp
    also note small
    finally show ?thesis using assms(3) by simp
  qed
  then have "\<not> pass_flag corpus d (map fst corpus) ((?P ^^ k) x)"
    unfolding pass_flag_iff [OF dk] by blast
  then show ?thesis ..
qed

subsection \<open>The loop in exact arithmetic\<close>

lemma iterate_loop_step:
  assumes "distinct (map fst corpus)"
  shows "iterate_loop corpus d (mk_dict (map fst corpus) x) =
           (if pass_flag corpus d (map fst corpus) x
            then iterate_loop corpus d
                   (mk_dict (map fst corpus) (in_place_pass corpus d (map fst corpus) x))
            else Some (Inr (mk_dict (map fst corpus) (in_place_pass corpus d (map fst corpus) x))))"
  by (subst iterate_loop.simps) (simp add: iterate_pass_mk_dict [OF assms])

lemma iterate_loop_returns:
  assumes "distinct (map fst corpus)"
  shows "\<not> pass_flag corpus d (map fst corpus)
            ((in_place_pass corpus d (map fst corpus) ^^ k) x) \<Longrightarrow>
         \<exists>j\<le>k. iterate_loop corpus d (mk_dict (map fst corpus) x) =
                  Some (Inr (mk_dict (map fst corpus)
                               ((in_place_pass corpus d (map fst corpus) ^^ Suc j) x))) \<and>
                \<not> pass_flag corpus d (map fst corpus)
                    ((in_place_pass corpus d (map fst corpus) ^^ j) x)"
proof (induction k arbitrary: x)
  case 0
  then have "\<not> pass_flag corpus d (map fst corpus) x" by simp
  then have "iterate_loop corpus d (mk_dict (map fst corpus) x) =
     Some (Inr (mk_dict (map fst corpus) ((in_place_pass corpus d (map fst corpus) ^^ Suc 0) x))) \<and>
     \<not> pass_flag corpus d (map fst corpus) ((in_place_pass corpus d (map fst corpus) ^^ 0) x)"
    by (simp add: iterate_loop_step [OF assms])
  then show ?case by blast
next
  case (Suc k)
  let ?P = "in_place_pass corpus d (map fst corpus)"
  show ?case
  proof (cases "pass_flag corpus d (map fst corpus) x")
    case False
    then have "iterate_loop corpus d (mk_dict (map fst corpus) x) =
       Some (Inr (mk_dict (map fst corpus) ((?P ^^ Suc 0) x))) \<and>
       \<not> pass_flag corpus d (map fst corpus) ((?P ^^ 0) x)"
      by (simp add: iterate_loop_step [OF assms])
    then show ?thesis by blast
  next
    case True
    have "\<not> pass_flag corpus d (map fst corpus) ((?P ^^ k) (?P x))"
      using Suc.prems by (simp add: funpow_swap1)
    from Suc.IH [OF this] obtain j where j: "j \<le> k"
      "iterate_loop corpus d (mk_dict (map fst corpus) (?P x)) =
         Some (Inr (mk_dict (map fst corpus) ((?P ^^ Suc j) (?P x))))"
      "\<not> pass_flag corpus d (map fst corpus) ((?P ^^ j) (?P x))"
      by blast
    have "iterate_loop corpus d (mk_dict (map fst corpus) x) =
            Some (Inr (mk_dict (map fst corpus) ((?P ^^ Suc (Suc j)) x)))"
      using True j(2) by (subst iterate_loop_step [OF assms]) (simp add: funpow_swap1)
    moreover have "\<not> pass_flag corpus d (map fst corpus) ((?P ^^ Suc j) x)"
      using j(3) by (simp add: funpow_swap1)
    ultimately show ?thesis using j(1) by (intro exI [of _ "Suc j"]) simp
  qed
qed

lemma iterate_pagerank_start:
  assumes "valid_corpus corpus" "corpus \<noteq> []"
  shows "iterate_pagerank corpus d =
           iterate_loop corpus d (mk_dict (map fst corpus) (\<lambda>_. 1 / real (length corpus)))"
proof -
  have dk: "distinct (map fst corpus)" using assms(1) by (simp add: valid_corpus_def)
  show ?thesis
    using assms(2) by (simp add: iterate_pagerank_def py_div_def fold_dict_set_const [OF dk])
qed

lemma iterate_pagerank_result:
  assumes "valid_corpus corpus" "corpus \<noteq> []" "0 \<le> d" "d < 1"
  shows "\<exists>r. iterate_pagerank corpus d =
               Some (Inr (mk_dict (map fst corpus) (in_place_pass corpus d (map fst corpus) r))) \<and>
             \<not> pass_flag corpus d (map fst corpus) r \<and>
             (\<exists>j. r = (in_place_pass corpus d (map fst corpus) ^^ j) (\<lambda>_. 1 / real (length corpus)))"
proof -
  let ?P = "in_place_pass corpus d (map fst corpus)"
  let ?x0 = "\<lambda>_::page. 1 / real (length corpus)"
  have dk: "distinct (map fst corpus)" using assms(1) by (simp add: valid_corpus_def)
  from some_pass_converges [OF assms(1,3,4), of ?x0] obtain k where
    "\<not> pass_flag corpus d (map fst corpus) ((?P ^^ k) ?x0)" by blast
  from iterate_loop_returns [OF dk this] obtain j where
    j: "iterate_loop corpus d (mk_dict (map fst corpus) ?x0) =
          Some (Inr (mk_dict (map fst corpus) ((?P ^^ Suc j) ?x0)))"
       "\<not> pass_flag corpus d (map fst corpus) ((?P ^^ j) ?x0)"
    by blast
  have "iterate_pagerank corpus d =
          Some (Inr (mk_dict (map fst corpus) (?P ((?P ^^ j) ?x0))))"
    using j(1) by (simp add: iterate_pagerank_start [OF assms(1,2)])
  with j(2) show ?thesis by blast
qed

subsection \<open>Ranks stay non-negative\<close>

lemma new_rank_nonneg:
  assumes "0 \<le> d" "d \<le> 1" "\<And>q. 0 \<le> r q"
  shows "0 \<le> new_rank corpus d r p"
proof -
  have "0 \<le> (\<Sum>item\<leftarrow>corpus. link_weight p item * r (fst item))"
    by (rule sum_list_nonneg) (auto simp: link_weight_nonneg assms(3))
  then show ?thesis
    using assms(1,2) by (simp add: new_rank_def)
qed

lemma in_place_pass_nonneg:
  assumes "0 \<le> d" "d \<le> 1"
  shows "(\<And>q. 0 \<le> r q) \<Longrightarrow> 0 \<le> in_place_pass corpus d pages r p"
proof (induction pages arbitrary: r)
  case Nil
  then show ?case by simp
next
  case (Cons page pages)
  have "0 \<le> (r(page := new_rank corpus d r page)) q" for q
    using Cons.prems new_rank_nonneg [OF assms, of r corpus page] by simp
  then show ?case using Cons.IH by simp
qed

lemma funpow_pass_nonneg:
  assumes "0 \<le> d" "d \<le> 1" "\<And>q. 0 \<le> r q"
  shows "0 \<le> (in_place_pass corpus d pages ^^ j) r p"
proof (induction j arbitrary: p)
  case 0
  then show ?case using assms(3) by simp
next
  case (Suc j)
  show ?case using in_place_pass_nonneg [OF assms(1,2), of "(in_place_pass corpus d pages ^^ j) r"] Suc
    by simp
qed

subsection \<open>The returned ranks in exact arithmetic\<close>

lemma iterate_pagerank_single_dead_end:
  "iterate_pagerank [(''A'', [])] (17 / 20) = Some (Inr [(''A'', 3 / 20)])"
proof -
  have second: "iterate_loop [(''A'', [])] (17 / 20) [(''A'', 3 / 20)] = Some (Inr [(''A'', 3 / 20)])"
    by (subst iterate_loop.simps) (simp add: py_div_def dict_get_def minChange_def)
  have first: "iterate_loop [(''A'', [])] (17 / 20) [(''A'', 1)] =
               iterate_loop [(''A'', [])] (17 / 20) [(''A'', 3 / 20)]"
    by (subst iterate_loop.simps) (simp add: py_div_def dict_get_def minChange_def)
  show ?thesis
    by (simp add: iterate_pagerank_def py_div_def first second)
qed


lemma mk_dict_nonneg:
  "(\<And>k. (0::real) \<le> r k) \<Longrightarrow> \<forall>v\<in>set (map snd (mk_dict ks r)). 0 \<le> v"
  unfolding map_snd_mk_dict by auto

subsection \<open>Rounding to binary64\<close>

text \<open>
  \<open>round64 x\<close> is an integer of at most 53 bits times the power of two that belongs to
  the binade of \<open>x\<close> (or to the subnormal range), it lies within half a unit in the last
  place of \<open>x\<close>, and a tie goes to the even integer by definition.
\<close>

lemma round_half_even_nearest: "\<bar>of_int (round_half_even x) - x\<bar> \<le> 1 / 2"
proof -
  have "of_int \<lfloor>x\<rfloor> \<le> x" "x < of_int \<lfloor>x\<rfloor> + 1" by linarith+
  then show ?thesis
    by (auto simp: round_half_even_def)
qed

lemma round_half_even_nonneg: "0 \<le> x \<Longrightarrow> 0 \<le> round_half_even x"
  by (auto simp: round_half_even_def)

lemma bitlen_powi_bounds:
  assumes "0 < a"
  shows "(2::rat) powi (bitlen a - 1) \<le> of_int a" "of_int a < (2::rat) powi bitlen a"
proof -
  from bitlen_bounds [OF assms] have lo: "2 ^ nat (bitlen a - 1) \<le> a" and hi: "a < 2 ^ nat (bitlen a)"
    by simp_all
  have b1: "1 \<le> bitlen a" using assms by (simp add: bitlen_alt_def)
  have "(2::rat) powi (bitlen a - 1) = 2 ^ nat (bitlen a - 1)"
    using b1 by (simp add: power_int_nonneg_exp)
  also have "\<dots> = of_int (2 ^ nat (bitlen a - 1))" by simp
  also have "\<dots> \<le> of_int a" using lo by (simp only: of_int_le_iff)
  finally show "(2::rat) powi (bitlen a - 1) \<le> of_int a" .
  have "(of_int a :: rat) < of_int (2 ^ nat (bitlen a))" using hi by (simp only: of_int_less_iff)
  also have "\<dots> = 2 ^ nat (bitlen a)" by simp
  also have "\<dots> = 2 powi bitlen a"
    using b1 by (simp add: power_int_nonneg_exp)
  finally show "of_int a < (2::rat) powi bitlen a" .
qed

lemma binade_bounds:
  assumes "x \<noteq> 0"
  shows "2 powi binade x \<le> \<bar>x\<bar>" "\<bar>x\<bar> < 2 powi (binade x + 1)"
proof -
  define p where "p = fst (quotient_of \<bar>x\<bar>)"
  define q where "q = snd (quotient_of \<bar>x\<bar>)"
  define e where "e = bitlen p - bitlen q"
  have q: "0 < q" unfolding q_def by (rule quotient_of_denom_pos')
  have x: "\<bar>x\<bar> = of_int p / of_int q"
    unfolding p_def q_def by (rule quotient_of_div) simp
  have "0 < \<bar>x\<bar>" using assms by simp
  then have p: "0 < p" using q x by (simp add: zero_less_divide_iff)
  note pb = bitlen_powi_bounds [OF p] and qb = bitlen_powi_bounds [OF q]
  have qpos: "(0::rat) < of_int q" using q by simp
  have "\<bar>x\<bar> < 2 powi bitlen p / 2 powi (bitlen q - 1)"
  proof -
    have "\<bar>x\<bar> < 2 powi bitlen p / of_int q"
      unfolding x using pb(2) qpos by (simp add: divide_strict_right_mono)
    also have "\<dots> \<le> 2 powi bitlen p / 2 powi (bitlen q - 1)"
      using qb(1) qpos by (intro divide_left_mono mult_pos_pos) simp_all
    finally show ?thesis .
  qed
  then have up: "\<bar>x\<bar> < 2 powi (e + 1)"
    by (simp add: e_def power_int_diff [symmetric] algebra_simps)
  have "(2::rat) powi (bitlen p - 1) / 2 powi bitlen q \<le> \<bar>x\<bar>"
  proof -
    have "(2::rat) powi (bitlen p - 1) / 2 powi bitlen q \<le> 2 powi (bitlen p - 1) / of_int q"
      using qb(2) qpos by (intro divide_left_mono mult_pos_pos) simp_all
    also have "\<dots> \<le> \<bar>x\<bar>"
      unfolding x using pb(1) qpos by (simp add: divide_right_mono)
    finally show ?thesis .
  qed
  then have lo: "2 powi (e - 1) \<le> \<bar>x\<bar>"
    by (simp add: e_def power_int_diff [symmetric] algebra_simps)
  have b: "binade x = (if 2 powi e \<le> \<bar>x\<bar> then e else e - 1)"
    by (simp add: binade_def Let_def e_def p_def q_def)
  show "2 powi binade x \<le> \<bar>x\<bar>" using lo by (simp add: b)
  show "\<bar>x\<bar> < 2 powi (binade x + 1)" using up by (simp add: b not_le)
qed

lemma round64_nearest:
  assumes "x \<noteq> 0"
  shows "\<bar>round64 x - x\<bar> \<le> 2 powi (max (binade x) (- 1022) - 52) / 2"
proof -
  define u :: rat where "u = 2 powi (max (binade x) (- 1022) - 52)"
  have u: "0 < u" by (simp add: u_def)
  have "round64 x - x = (of_int (round_half_even (x / u)) - x / u) * u"
    using assms u by (simp add: round64_def u_def left_diff_distrib)
  then have "\<bar>round64 x - x\<bar> = \<bar>of_int (round_half_even (x / u)) - x / u\<bar> * u"
    using u by (simp add: abs_mult)
  also have "\<dots> \<le> 1 / 2 * u"
    using round_half_even_nearest [of "x / u"] u by (intro mult_right_mono) simp_all
  finally show ?thesis by (simp add: u_def)
qed

lemma round64_nonneg: "0 \<le> x \<Longrightarrow> 0 \<le> round64 x"
  by (simp add: round64_def round_half_even_nonneg zero_le_divide_iff)

lemma round64_significand:
  assumes "x \<noteq> 0"
  shows "\<bar>round_half_even (x / 2 powi (max (binade x) (- 1022) - 52))\<bar> \<le> 2 ^ 53"
proof -
  define k where "k = max (binade x) (- 1022)"
  define y where "y = x / 2 powi (k - 52)"
  have "\<bar>x\<bar> < 2 powi (binade x + 1)" using assms by (rule binade_bounds)
  also have "\<dots> \<le> 2 powi (k + 1)"
    by (rule power_int_increasing) (simp_all add: k_def)
  finally have "\<bar>x\<bar> < 2 powi (k + 1)" .
  then have "\<bar>x\<bar> / 2 powi (k - 52) < 2 powi (k + 1) / 2 powi (k - 52)"
    by (rule divide_strict_right_mono) simp
  also have "(2::rat) powi (k + 1) / 2 powi (k - 52) = 2 powi 53"
    by (simp add: power_int_diff [symmetric])
  finally have y: "\<bar>y\<bar> < 2 ^ 53" by (simp add: y_def abs_divide)
  have "\<bar>of_int (round_half_even y) - y\<bar> \<le> 1 / 2" by (rule round_half_even_nearest)
  then have "\<bar>(of_int (round_half_even y) :: rat)\<bar> < 2 ^ 53 + 1" using y by linarith
  then have "(of_int \<bar>round_half_even y\<bar> :: rat) < of_int (2 ^ 53 + 1)" by simp
  then have "\<bar>round_half_even y\<bar> < 2 ^ 53 + 1" by (simp only: of_int_less_iff)
  then show ?thesis by (simp add: y_def k_def)
qed

subsection \<open>The binary64 loop keeps the keys and the signs\<close>

lemma dict_get_in_values: "dict_get d k = Inr v \<Longrightarrow> v \<in> set (map snd d)"
proof -
  assume "dict_get d k = Inr v"
  then have "map_of d k = Some v" by (auto simp: dict_get_def split: option.splits)
  then have "(k, v) \<in> set d" by (rule map_of_SomeD)
  then show ?thesis by force
qed

lemma dict_get_Inr_key: "dict_get d k = Inr v \<Longrightarrow> k \<in> set (map fst d)"
proof -
  assume "dict_get d k = Inr v"
  then have "map_of d k = Some v" by (auto simp: dict_get_def split: option.splits)
  then have "(k, v) \<in> set d" by (rule map_of_SomeD)
  then show ?thesis by force
qed

lemma dict_set_keys: "k \<in> set (map fst d) \<Longrightarrow> map fst (dict_set d k v) = map fst d"
proof (induction d)
  case Nil
  then show ?case by simp
next
  case (Cons kv d)
  obtain k' v' where kv: "kv = (k', v')" by (cases kv)
  show ?case
  proof (cases "k' = k")
    case True
    then show ?thesis by (simp add: kv)
  next
    case False
    then have "k \<in> set (map fst d)" using Cons.prems kv by simp
    then show ?thesis using Cons.IH False by (simp add: kv)
  qed
qed

lemma dict_set_values: "set (map snd (dict_set d k v)) \<subseteq> insert v (set (map snd d))"
proof (induction d)
  case Nil
  then show ?case by simp
next
  case (Cons kv d)
  obtain k' v' where kv: "kv = (k', v')" by (cases kv)
  show ?case
  proof (cases "k' = k")
    case True
    then show ?thesis by (auto simp: kv)
  next
    case False
    then show ?thesis using Cons.IH by (auto simp: kv)
  qed
qed

lemma sum_links64_nonneg:
  assumes "0 \<le> d" "\<forall>v\<in>set (map snd probDict). 0 \<le> v"
  shows "0 \<le> acc \<Longrightarrow> sum_links64 items d probDict page acc = Inr new_value \<Longrightarrow> 0 \<le> new_value"
proof (induction items arbitrary: acc)
  case Nil
  then show ?case by simp
next
  case (Cons item items)
  obtain link linked_pages where item: "item = (link, linked_pages)" by (cases item)
  show ?case
  proof (cases "page \<in> set linked_pages")
    case False
    then show ?thesis using Cons item by simp
  next
    case True
    show ?thesis
    proof (cases "dict_get probDict link")
      case (Inl e)
      then show ?thesis using Cons.prems(2) True item by simp
    next
      case r: (Inr r)
      then have "r \<in> set (map snd probDict)" by (rule dict_get_in_values)
      with assms(2) have r0: "0 \<le> r" by (rule bspec)
      have dr: "0 \<le> round64 (d * r)"
        using assms(1) r0 by (intro round64_nonneg mult_nonneg_nonneg)
      show ?thesis
      proof (cases "div64 (round64 (d * r)) (of_nat (length linked_pages))")
        case (Inl e)
        then show ?thesis using Cons.prems(2) True item r by simp
      next
        case t: (Inr t)
        then have "t = round64 (round64 (d * r) / of_nat (length linked_pages))"
          by (simp add: div64_def split: if_splits)
        moreover have "0 \<le> round64 (d * r) / of_nat (length linked_pages)"
          using dr by (rule divide_nonneg_nonneg) simp
        ultimately have t0: "0 \<le> t" by (simp only: round64_nonneg)
        have "0 \<le> acc + t" using Cons.prems(1) t0 by (rule add_nonneg_nonneg)
        then have acc': "0 \<le> round64 (acc + t)" by (rule round64_nonneg)
        have "sum_links64 items d probDict page (round64 (acc + t)) = Inr new_value"
          using Cons.prems(2) True item r t by simp
        from Cons.IH [OF acc' this] show ?thesis .
      qed
    qed
  qed
qed

lemma iterate_pass64_invariant:
  assumes "0 \<le> d" "d \<le> 1"
  shows "map fst probDict = map fst corpus \<Longrightarrow> \<forall>v\<in>set (map snd probDict). 0 \<le> v \<Longrightarrow>
         iterate_pass64 corpus d pages probDict flag = Inr (probDict', flag') \<Longrightarrow>
         map fst probDict' = map fst corpus \<and> (\<forall>v\<in>set (map snd probDict'). 0 \<le> v)"
proof (induction pages arbitrary: probDict flag)
  case Nil
  then show ?case by simp
next
  case (Cons page pages)
  show ?case
  proof (cases "div64 (round64 (1 - d)) (of_nat (length corpus))")
    case (Inl e)
    then show ?thesis using Cons.prems(3) by simp
  next
    case base: (Inr base)
    then have "base = round64 (round64 (1 - d) / of_nat (length corpus))"
      by (simp add: div64_def split: if_splits)
    moreover have "0 \<le> round64 (1 - d)" using assms(2) by (intro round64_nonneg) simp
    then have "0 \<le> round64 (1 - d) / of_nat (length corpus)"
      by (rule divide_nonneg_nonneg) simp
    ultimately have base0: "0 \<le> base" by (simp only: round64_nonneg)
    show ?thesis
    proof (cases "sum_links64 corpus d probDict page base")
      case (Inl e)
      then show ?thesis using Cons.prems(3) base by simp
    next
      case nv: (Inr new_value)
      have nv0: "0 \<le> new_value"
        using sum_links64_nonneg [OF assms(1) Cons.prems(2) base0 nv] .
      show ?thesis
      proof (cases "dict_get probDict page")
        case (Inl e)
        then show ?thesis using Cons.prems(3) base nv by simp
      next
        case old: (Inr old_rank)
        have rest: "iterate_pass64 corpus d pages (dict_set probDict page new_value)
             (if \<bar>round64 (new_value - old_rank)\<bar> > minChange64 then True else flag)
             = Inr (probDict', flag')"
          using Cons.prems(3) base nv old by simp
        have keys: "map fst (dict_set probDict page new_value) = map fst corpus"
          using dict_get_Inr_key [OF old] Cons.prems(1) by (simp add: dict_set_keys)
        have vals: "\<forall>v\<in>set (map snd (dict_set probDict page new_value)). 0 \<le> v"
          using dict_set_values [of probDict page new_value] Cons.prems(2) nv0 by blast
        from Cons.IH [OF keys vals rest] show ?thesis .
      qed
    qed
  qed
qed

lemma iterate_loop64_invariant:
  assumes "iterate_loop64 corpus d probDict = Some result"
  shows "0 \<le> d \<and> d \<le> 1 \<and> map fst probDict = map fst corpus \<and>
           (\<forall>v\<in>set (map snd probDict). 0 \<le> v) \<longrightarrow>
         (\<forall>ranks. result = Inr ranks \<longrightarrow>
            map fst ranks = map fst corpus \<and> (\<forall>v\<in>set (map snd ranks). 0 \<le> v))"
proof (rule iterate_loop64.raw_induct
         [where P = "\<lambda>corpus d probDict result.
            0 \<le> d \<and> d \<le> 1 \<and> map fst probDict = map fst corpus \<and>
              (\<forall>v\<in>set (map snd probDict). 0 \<le> v) \<longrightarrow>
            (\<forall>ranks. result = Inr ranks \<longrightarrow>
               map fst ranks = map fst corpus \<and> (\<forall>v\<in>set (map snd ranks). 0 \<le> v))", OF _ assms])
  fix loop :: "corpus \<Rightarrow> rat \<Rightarrow> rat dict \<Rightarrow> (error + rat dict) option"
  fix corpus d probDict result
  assume IH: "\<And>corpus d probDict result. loop corpus d probDict = Some result \<Longrightarrow>
            0 \<le> d \<and> d \<le> 1 \<and> map fst probDict = map fst corpus \<and>
              (\<forall>v\<in>set (map snd probDict). 0 \<le> v) \<longrightarrow>
            (\<forall>ranks. result = Inr ranks \<longrightarrow>
               map fst ranks = map fst corpus \<and> (\<forall>v\<in>set (map snd ranks). 0 \<le> v))"
    and step: "(case iterate_pass64 corpus d (map fst corpus) probDict False of
                  Inl e \<Rightarrow> Some (Inl e)
                | Inr (probDict', flag) \<Rightarrow>
                    if flag then loop corpus d probDict' else Some (Inr probDict')) = Some result"
  show "0 \<le> d \<and> d \<le> 1 \<and> map fst probDict = map fst corpus \<and>
              (\<forall>v\<in>set (map snd probDict). 0 \<le> v) \<longrightarrow>
            (\<forall>ranks. result = Inr ranks \<longrightarrow>
               map fst ranks = map fst corpus \<and> (\<forall>v\<in>set (map snd ranks). 0 \<le> v))"
  proof (intro impI allI)
    fix ranks
    assume inv: "0 \<le> d \<and> d \<le> 1 \<and> map fst probDict = map fst corpus \<and>
              (\<forall>v\<in>set (map snd probDict). 0 \<le> v)"
      and res: "result = Inr ranks"
    obtain probDict' flag where
      pass: "iterate_pass64 corpus d (map fst corpus) probDict False = Inr (probDict', flag)"
    proof (cases "iterate_pass64 corpus d (map fst corpus) probDict False")
      case (Inl e)
      then show ?thesis using step res by simp
    next
      case (Inr pf)
      then show ?thesis using that [of "fst pf" "snd pf"] by simp
    qed
    from inv have d: "0 \<le> d" "d \<le> 1" and k: "map fst probDict = map fst corpus"
      and v: "\<forall>v\<in>set (map snd probDict). 0 \<le> v"
      by simp_all
    note inv' = iterate_pass64_invariant [OF d k v pass]
    show "map fst ranks = map fst corpus \<and> (\<forall>v\<in>set (map snd ranks). 0 \<le> v)"
    proof (cases flag)
      case True
      then have "loop corpus d probDict' = Some result" using step pass by simp
      from IH [OF this] d inv' res show ?thesis by blast
    next
      case False
      then have "ranks = probDict'" using step pass res by simp
      then show ?thesis using inv' by simp
    qed
  qed
qed

lemma iterate_pagerank64_keys_and_signs:
  assumes "valid_corpus corpus" "0 \<le> d" "d \<le> 1"
    and "iterate_pagerank64 corpus d = Some (Inr ranks)"
  shows "map fst ranks = map fst corpus \<and> (\<forall>v\<in>set (map snd ranks). 0 \<le> v)"
proof -
  have dk: "distinct (map fst corpus)" using assms(1) by (simp add: valid_corpus_def)
  from assms(4) obtain start_value where
    sv: "div64 1 (of_nat (length corpus)) = Inr start_value"
    by (cases "div64 1 (of_nat (length corpus))") (simp_all add: iterate_pagerank64_def)
  then have "start_value = round64 (1 / of_nat (length corpus))"
    by (simp add: div64_def split: if_splits)
  then have sv0: "0 \<le> start_value" by (simp add: round64_nonneg)
  let ?init = "mk_dict (map fst corpus) (\<lambda>_. start_value)"
  have loop: "iterate_loop64 corpus d ?init = Some (Inr ranks)"
    using assms(4) by (simp add: iterate_pagerank64_def sv fold_dict_set_const [OF dk])
  have "map fst ?init = map fst corpus" by simp
  moreover have "\<forall>v\<in>set (map snd ?init). 0 \<le> v"
    using sv0 unfolding map_snd_mk_dict by simp
  ultimately show ?thesis
    using iterate_loop64_invariant [OF loop] assms(2,3) by blast
qed

subsection \<open>An input on which the binary64 loop never breaks\<close>

lemma cycle_first_pass:
  "iterate_pass64 cycle_corpus cycle_damping (map fst cycle_corpus) cycle_start False
     = Inr (cycle_odd, True)"
  by code_simp

lemma cycle_odd_pass:
  "iterate_pass64 cycle_corpus cycle_damping (map fst cycle_corpus) cycle_odd False
     = Inr (cycle_even, True)"
  by code_simp

lemma cycle_even_pass:
  "iterate_pass64 cycle_corpus cycle_damping (map fst cycle_corpus) cycle_even False
     = Inr (cycle_odd, True)"
  by code_simp

lemma cycle_start_value: "div64 1 (of_nat (length cycle_corpus)) = Inr (1 / 4)"
  by code_simp

lemma cycle_never_breaks:
  assumes "iterate_loop64 corpus d probDict = Some result"
  shows "\<not> (corpus = cycle_corpus \<and> d = cycle_damping \<and>
            (probDict = cycle_odd \<or> probDict = cycle_even))"
proof (rule iterate_loop64.raw_induct
         [where P = "\<lambda>corpus d probDict result.
                       \<not> (corpus = cycle_corpus \<and> d = cycle_damping \<and>
                          (probDict = cycle_odd \<or> probDict = cycle_even))", OF _ assms])
  fix loop :: "corpus \<Rightarrow> rat \<Rightarrow> rat dict \<Rightarrow> (error + rat dict) option"
  fix corpus d probDict result
  assume IH: "\<And>corpus d probDict result. loop corpus d probDict = Some result \<Longrightarrow>
                \<not> (corpus = cycle_corpus \<and> d = cycle_damping \<and>
                   (probDict = cycle_odd \<or> probDict = cycle_even))"
    and step: "(case iterate_pass64 corpus d (map fst corpus) probDict False of
                  Inl e \<Rightarrow> Some (Inl e)
                | Inr (probDict', flag) \<Rightarrow>
                    if flag then loop corpus d probDict' else Some (Inr probDict')) = Some result"
  show "\<not> (corpus = cycle_corpus \<and> d = cycle_damping \<and>
            (probDict = cycle_odd \<or> probDict = cycle_even))"
  proof
    assume a: "corpus = cycle_corpus \<and> d = cycle_damping \<and>
               (probDict = cycle_odd \<or> probDict = cycle_even)"
    then consider (odd) "probDict = cycle_odd" | (even) "probDict = cycle_even"
      by blast
    then show False
    proof cases
      case odd
      have "loop cycle_corpus cycle_damping cycle_even = Some result"
        using step a odd by (simp add: cycle_odd_pass)
      from IH [OF this] show False by simp
    next
      case even
      have "loop cycle_corpus cycle_damping cycle_odd = Some result"
        using step a even by (simp add: cycle_even_pass)
      from IH [OF this] show False by simp
    qed
  qed
qed

lemma cycle_loop_None: "iterate_loop64 cycle_corpus cycle_damping cycle_odd = None"
proof (cases "iterate_loop64 cycle_corpus cycle_damping cycle_odd")
  case None
  then show ?thesis .
next
  case (Some result)
  from cycle_never_breaks [OF this] show ?thesis by simp
qed

lemma cycle_pagerank_None: "iterate_pagerank64 cycle_corpus cycle_damping = None"
proof -
  have "fold (\<lambda>key probDict. dict_set probDict key (1 / 4)) (map fst cycle_corpus) [] = cycle_start"
    by (simp add: cycle_corpus_def cycle_start_def)
  then have "iterate_pagerank64 cycle_corpus cycle_damping =
        iterate_loop64 cycle_corpus cycle_damping cycle_start"
    unfolding iterate_pagerank64_def cycle_start_value by simp
  also have "\<dots> = iterate_loop64 cycle_corpus cycle_damping cycle_odd"
    by (subst iterate_loop64.simps) (simp add: cycle_first_pass)
  finally show ?thesis by (simp add: cycle_loop_None)
qed

lemma cycle_corpus_valid: "valid_corpus cycle_corpus \<and> no_dead_end cycle_corpus"
  by (simp add: cycle_corpus_def valid_corpus_def no_dead_end_def)

lemma iterate_pagerank_exact_returns:
  assumes "valid_corpus corpus" and "corpus \<noteq> []" and "0 \<le> d" and "d < 1"
  shows "\<exists>probDict. iterate_pagerank corpus d = Some (Inr probDict)"
  using iterate_pagerank_result [OF assms] by blast

lemma cycle_exact_returns:
  "\<exists>probDict. iterate_pagerank cycle_corpus (1 - 1 / 2 ^ 53) = Some (Inr probDict)"
proof (rule iterate_pagerank_exact_returns)
  show "valid_corpus cycle_corpus" using cycle_corpus_valid by simp
  show "cycle_corpus \<noteq> []" by (simp add: cycle_corpus_def)
  show "(0::real) \<le> 1 - 1 / 2 ^ 53" by simp
  show "(1::real) - 1 / 2 ^ 53 < 1" by simp
qed

text \<open>
  C9. In exact arithmetic the loop breaks for every valid non-empty corpus and every
  \<open>0 \<le> d < 1\<close> (\<open>iterate_pagerank_exact_returns\<close>). The program computes in binary64 and
  has no bound on the number of passes. On the corpus \<open>A -> C\<close>, \<open>B -> A\<close>, \<open>C -> B\<close>,
  \<open>D -> A\<close> with \<open>d = 1 - 2^-53\<close> the first pass leaves the ranks \<open>1/2, 1/4, 1/2, 2^-55\<close>,
  the next one \<open>1/4, 1/2, 1/4, 2^-55\<close>, the one after the former again: every pass moves
  a rank by \<open>1/4\<close>, sets the flag, and the loop never breaks.
\<close>
theorem iterate_pagerank64_never_returns:
  "iterate_pagerank64 [(''A'', [''C'']), (''B'', [''A'']), (''C'', [''B'']), (''D'', [''A''])]
     (1 - 1 / 2 ^ 53) = None"
  using cycle_pagerank_None unfolding cycle_corpus_def cycle_damping_def .

subsection \<open>The sum of the returned ranks\<close>

lemma iterate_pagerank_determined:
  assumes "valid_corpus corpus" "corpus \<noteq> []" "0 \<le> d" "d < 1"
    and "iterate_pagerank corpus d = Some (Inr probDict)"
  shows "\<exists>r j. probDict = mk_dict (map fst corpus) (in_place_pass corpus d (map fst corpus) r) \<and>
               \<not> pass_flag corpus d (map fst corpus) r \<and>
               r = (in_place_pass corpus d (map fst corpus) ^^ j) (\<lambda>_. 1 / real (length corpus))"
  using iterate_pagerank_result [OF assms(1-4)] assms(5) by auto


lemma iterate_pagerank64_four_pages:
  "iterate_pagerank64 [(''A'', [''B'']), (''B'', [''A'']), (''C'', [''A'']), (''D'', [''A''])] (1 / 2)
     = Some (Inr [(''A'', 427 / 1024), (''B'', 683 / 2048), (''C'', 1 / 8), (''D'', 1 / 8)])"
  by code_simp




subsection \<open>Keys and signs of the results\<close>

text \<open>
  C10. On a valid non-empty corpus and for \<open>0 < d < 1\<close>: the transition model from a page
  with links returns, and the sampling estimator and the iterative estimator whenever
  they return, a dict with the keys of the corpus, in its order, and values that are not
  negative. The sampling estimator returns on every corpus without dead ends. The
  binary64 loop keeps keys and signs as well (\<open>iterate_pagerank64_keys_and_signs\<close>).
\<close>
theorem results_keys_and_signs:
  assumes "valid_corpus corpus" and "corpus \<noteq> []"
    and "0 < damping_factor" and "damping_factor < 1"
  shows "(map_of corpus page = Some links \<and> links \<noteq> [] \<longrightarrow>
            (\<exists>distribution. transition_model corpus page damping_factor = Inr distribution \<and>
               map fst distribution = map fst corpus \<and>
               (\<forall>v\<in>set (map snd distribution). 0 \<le> v)))
       \<and> (1 \<le> n \<and> sample_pagerank corpus damping_factor n k us = Inr probDict \<longrightarrow>
            map fst probDict = map fst corpus \<and> (\<forall>v\<in>set (map snd probDict). 0 \<le> v))
       \<and> (1 \<le> n \<and> no_dead_end corpus \<longrightarrow>
            (\<exists>probDict. sample_pagerank corpus damping_factor n k us = Inr probDict))
       \<and> (iterate_pagerank corpus damping_factor = Some (Inr ranks) \<longrightarrow>
            map fst ranks = map fst corpus \<and> (\<forall>v\<in>set (map snd ranks). 0 \<le> v))"
proof (intro conjI impI)
  assume a: "map_of corpus page = Some links \<and> links \<noteq> []"
  let ?f = "\<lambda>k. (1 - damping_factor) / real (length corpus) +
                 (if k \<in> set links then damping_factor / real (length links) else 0)"
  have "transition_model corpus page damping_factor = Inr (mk_dict (map fst corpus) ?f)"
    using a assms(1) by (simp add: transition_model_linked)
  moreover have "0 \<le> ?f k" for k
    using assms(3,4) by simp
  then have "\<forall>v\<in>set (map snd (mk_dict (map fst corpus) ?f)). 0 \<le> v"
    by (rule mk_dict_nonneg)
  moreover have "map fst (mk_dict (map fst corpus) ?f) = map fst corpus"
    by simp
  ultimately show "\<exists>distribution. transition_model corpus page damping_factor = Inr distribution \<and>
               map fst distribution = map fst corpus \<and>
               (\<forall>v\<in>set (map snd distribution). 0 \<le> v)"
    by blast
next
  assume a: "1 \<le> n \<and> sample_pagerank corpus damping_factor n k us = Inr probDict"
  from sample_pagerank_result [OF assms(1), of n damping_factor k us probDict] a obtain f where
    f: "probDict = mk_dict (map fst corpus) (\<lambda>p. real_of_int (f p) / real_of_int n)"
       "\<forall>p. 0 \<le> f p"
    by blast
  show "map fst probDict = map fst corpus" by (simp add: f(1))
  have "0 \<le> real_of_int (f p) / real_of_int n" for p
    using f(2) a by simp
  then show "\<forall>v\<in>set (map snd probDict). 0 \<le> v"
    unfolding f(1) by (rule mk_dict_nonneg)
next
  assume "1 \<le> n \<and> no_dead_end corpus"
  then show "\<exists>probDict. sample_pagerank corpus damping_factor n k us = Inr probDict"
    using sample_pagerank_returns [OF assms(1) _ assms(2)] by blast
next
  assume ret: "iterate_pagerank corpus damping_factor = Some (Inr ranks)"
  have d0: "0 \<le> damping_factor" and d1: "damping_factor \<le> 1" using assms(3,4) by simp_all
  let ?P = "in_place_pass corpus damping_factor (map fst corpus)"
  from iterate_pagerank_determined [OF assms(1,2) d0 assms(4) ret] obtain r j where
    r: "ranks = mk_dict (map fst corpus) (?P r)"
       "r = (?P ^^ j) (\<lambda>_. 1 / real (length corpus))"
    by blast
  show "map fst ranks = map fst corpus" by (simp add: r(1))
  have "0 \<le> r q" for q
    unfolding r(2) using d0 d1 by (rule funpow_pass_nonneg) simp
  then have "0 \<le> ?P r q" for q
    by (rule in_place_pass_nonneg [OF d0 d1])
  then show "\<forall>v\<in>set (map snd ranks). 0 \<le> v"
    unfolding r(1) by (rule mk_dict_nonneg)
qed

lemma iterate_pagerank_two_pages:
  "iterate_pagerank [(''A'', [''B'']), (''B'', [''A''])] (17 / 20)
     = Some (Inr [(''A'', 1 / 2), (''B'', 1 / 2)])"
  by code_simp

theorem results_keys_and_signs_witness:
  "valid_corpus [(''A'', [''B'']), (''B'', [''A''])]
   \<and> no_dead_end [(''A'', [''B'']), (''B'', [''A''])]
   \<and> map_of [(''A'', [''B'']), (''B'', [''A''])] ''A'' = Some [''B'']
   \<and> sample_pagerank [(''A'', [''B'']), (''B'', [''A''])] (17 / 20) 1 0 (\<lambda>i. 1 / 2)
       = Inr [(''A'', 1), (''B'', 0)]
   \<and> iterate_pagerank [(''A'', [''B'']), (''B'', [''A''])] (17 / 20)
       = Some (Inr [(''A'', 1 / 2), (''B'', 1 / 2)])
   \<and> (\<exists>distribution. transition_model [(''A'', [''B'']), (''B'', [''A''])] ''A'' (17 / 20)
           = Inr distribution \<and>
         map fst distribution = [''A'', ''B''] \<and> (\<forall>v\<in>set (map snd distribution). 0 \<le> v))
   \<and> (\<exists>probDict. sample_pagerank [(''A'', [''B'']), (''B'', [''A''])] (17 / 20) 1 0 (\<lambda>i. 1 / 2)
           = Inr probDict)
   \<and> map fst [(''A'', 1 / 2 :: real), (''B'', 1 / 2)] = [''A'', ''B'']
   \<and> list_all (\<lambda>v. 0 \<le> v) (map snd [(''A'', 1 / 2 :: real), (''B'', 1 / 2)])"
proof -
  have v: "valid_corpus [(''A'', [''B'']), (''B'', [''A''])]"
    by (simp add: valid_corpus_def)
  have n: "no_dead_end [(''A'', [''B'']), (''B'', [''A''])]"
    by (simp add: no_dead_end_def)
  have s: "sample_pagerank [(''A'', [''B'']), (''B'', [''A''])] (17 / 20) 1 0 (\<lambda>i. 1 / 2)
       = Inr [(''A'', 1), (''B'', 0)]"
    by (simp add: sample_pagerank_def choice_def incr_def dict_get_def sample_loop_done py_div_def)
  show ?thesis
    using results_keys_and_signs [OF v, of "17 / 20" "''A''" "[''B'']" 1 0 "\<lambda>i. 1 / 2"
            "[(''A'', 1), (''B'', 0)]" "[(''A'', 1 / 2), (''B'', 1 / 2)]"]
          v n s iterate_pagerank_two_pages
    by simp
qed

end
